theory Spec2Isabelle
  imports Main "HOL-Library.AList" "HOL-Library.Word"
begin

section \<open>The job queue (queue.ts)\<close>

text \<open>
  The queue is a single object with four private fields: the map \<open>jobs\<close> from job id to job
  object, the wait-list \<open>queue\<close> of job ids, the flag \<open>processing\<close> and the registered
  \<open>worker\<close>. Job objects are mutated in place through references that outlive their entry in
  \<open>jobs\<close> (the continuation of \<open>processNext\<close> keeps the reference over the \<open>await\<close>), so the
  model keeps them in an explicit store: \<open>heap\<close> is the list of all job objects ever allocated,
  an address is an index into it, and the n-th call of \<open>addJob\<close> allocates address n.
  Every address the queue holds is allocated (lemma \<open>run_addrs_ok\<close>), so the reads
  \<open>heap s ! a\<close> below are in range in every run.

  Time is the millisecond clock as a natural number. Every event below runs to completion
  without suspension and reads the clock as the event's timestamp.
\<close>

type_synonym timestamp = nat
type_synonym addr = nat

datatype job_kind = FetchCommits | FetchAll

datatype job_status = Pending | Processing | Completed | Failed

record ('d, 'r) Job =
  job_id :: string
  job_type :: job_kind
  data :: 'd
  status :: job_status
  progress :: "int option"
  result :: "'r option"
  error :: "string option"
  createdAt :: timestamp
  startedAt :: "timestamp option"
  completedAt :: "timestamp option"

text \<open>
  A thrown value is \<open>null\<close> or \<open>undefined\<close> (\<open>ThrownNull\<close>), or a value of which the property
  \<open>message\<close> can be read: the property is a string or is absent. A promise either resolves
  with a result or rejects with a thrown value.
\<close>

datatype thrown = Thrown "string option" | ThrownNull

datatype 'r outcome = Resolved 'r | Rejected thrown

text \<open>The five notifications the queue emits, each carrying the job object.\<close>

datatype notification =
  JobAdded addr | JobStarted addr | JobProgress addr | JobCompleted addr | JobFailed addr

text \<open>
  \<open>inflight\<close> is not a field of the class: it lists the job objects whose worker invocation
  has been made and whose promise has not settled yet, that is the suspended continuations of
  \<open>processNext\<close>. \<open>emitted\<close> is the sequence of notifications emitted so far. No listener is
  registered anywhere in the repository, so emitting has no further effect.
\<close>

record ('d, 'r) JobQueue =
  heap :: "('d, 'r) Job list"
  jobs :: "(string \<times> addr) list"
  queue :: "string list"
  processing :: bool
  worker :: "nat option"
  inflight :: "addr list"
  emitted :: "notification list"

definition new_JobQueue :: "('d, 'r) JobQueue" where
  "new_JobQueue =
     \<lparr>heap = [], jobs = [], queue = [], processing = False, worker = None,
      inflight = [], emitted = []\<rparr>"

definition setWorker :: "nat \<Rightarrow> ('d, 'r) JobQueue \<Rightarrow> ('d, 'r) JobQueue" where
  "setWorker w s = s\<lparr>worker := Some w\<rparr>"

subsection \<open>Job identifiers\<close>

fun show_nat :: "nat \<Rightarrow> string" where
  "show_nat n =
     (if n < 10 then [''0123456789'' ! n]
      else show_nat (n div 10) @ [''0123456789'' ! (n mod 10)])"

declare show_nat.simps [simp del]

fun kind_str :: "job_kind \<Rightarrow> string" where
  "kind_str FetchCommits = ''fetch-commits''"
| "kind_str FetchAll = ''fetch-all''"

text \<open>
  \<open>`${type}_${Date.now()}_${Math.random().toString(36).substr(2, 9)}`\<close>: the random suffix
  is supplied by the environment.
\<close>

definition make_id :: "job_kind \<Rightarrow> timestamp \<Rightarrow> string \<Rightarrow> string" where
  "make_id ty now sfx = kind_str ty @ ''_'' @ show_nat now @ ''_'' @ sfx"

subsection \<open>Dispatch\<close>

definition start_job :: "timestamp \<Rightarrow> addr \<Rightarrow> ('d, 'r) JobQueue \<Rightarrow> ('d, 'r) JobQueue" where
  "start_job now a s =
     s\<lparr>heap := (heap s)[a := (heap s ! a)\<lparr>status := Processing, startedAt := Some now\<rparr>],
       emitted := emitted s @ [JobStarted a],
       inflight := inflight s @ [a]\<rparr>"

text \<open>
  \<open>processNext\<close> up to its \<open>await\<close>: the guard on the flag and the wait-list, the shift of the
  head, the two early exits, and the invocation of the worker, which leaves the job in flight.
\<close>

function processNext :: "timestamp \<Rightarrow> ('d, 'r) JobQueue \<Rightarrow> ('d, 'r) JobQueue" where
  "processNext now s =
     (if processing s \<or> queue s = [] then s
      else case queue s of
        [] \<Rightarrow> s
      | jobId # rest \<Rightarrow>
          if jobId = [] then s\<lparr>queue := rest, processing := False\<rparr>
          else (case map_of (jobs s) jobId of
              None \<Rightarrow> processNext now (s\<lparr>queue := rest, processing := False\<rparr>)
            | Some a \<Rightarrow>
                (case worker s of
                   None \<Rightarrow> processNext now (s\<lparr>queue := rest, processing := False\<rparr>)
                 | Some w \<Rightarrow> start_job now a (s\<lparr>queue := rest, processing := True\<rparr>))))"
  by pat_completeness auto
termination
  by (relation "measure (\<lambda>(now, s). length (queue s))") auto

declare processNext.simps [simp del]

text \<open>The rest of \<open>processNext\<close>: the continuation after the \<open>await\<close>, run when the worker's
  promise for the job object \<open>a\<close> settles.\<close>

text \<open>\<open>error.message || 'Unknown error'\<close>, for the property \<open>message\<close> read from the thrown value.\<close>

definition error_message :: "string option \<Rightarrow> string" where
  "error_message m =
     (case m of None \<Rightarrow> ''Unknown error''
      | Some t \<Rightarrow> if t = [] then ''Unknown error'' else t)"

text \<open>
  The \<open>try\<close> and the \<open>catch\<close>. In the \<open>catch\<close> the status is set first and \<open>error.message\<close> is
  read next: for \<open>null\<close> or \<open>undefined\<close> this read throws a \<open>TypeError\<close>, and neither the error,
  nor the completion time, nor the notification follows.
\<close>

definition record_outcome ::
  "addr \<Rightarrow> 'r outcome \<Rightarrow> timestamp \<Rightarrow> ('d, 'r) JobQueue \<Rightarrow> ('d, 'r) JobQueue" where
  "record_outcome a out now s =
     (case out of
        Resolved r \<Rightarrow>
          s\<lparr>heap := (heap s)[a := (heap s ! a)
                 \<lparr>status := Completed, result := Some r, completedAt := Some now\<rparr>],
            emitted := emitted s @ [JobCompleted a]\<rparr>
      | Rejected (Thrown m) \<Rightarrow>
          s\<lparr>heap := (heap s)[a := (heap s ! a)
                 \<lparr>status := Failed, error := Some (error_message m), completedAt := Some now\<rparr>],
            emitted := emitted s @ [JobFailed a]\<rparr>
      | Rejected ThrownNull \<Rightarrow>
          s\<lparr>heap := (heap s)[a := (heap s ! a)\<lparr>status := Failed\<rparr>]\<rparr>)"

text \<open>Whether the \<open>catch\<close> itself throws, which ends \<open>processNext\<close> before the flag is cleared
  and before the next job is looked for. The promise of \<open>processNext\<close> then rejects and nobody
  handles it; the model follows the queue object, which stays as the throw leaves it.\<close>

fun catch_throws :: "'r outcome \<Rightarrow> bool" where
  "catch_throws (Rejected ThrownNull) = True"
| "catch_throws out = False"

definition settle ::
  "addr \<Rightarrow> 'r outcome \<Rightarrow> timestamp \<Rightarrow> ('d, 'r) JobQueue \<Rightarrow> ('d, 'r) JobQueue" where
  "settle a out now s =
     (if a \<notin> set (inflight s) then s
      else if catch_throws out
      then (record_outcome a out now s)\<lparr>inflight := remove1 a (inflight s)\<rparr>
      else processNext now
             ((record_outcome a out now s)
                \<lparr>processing := False, inflight := remove1 a (inflight s)\<rparr>))"

subsection \<open>The public operations\<close>

text \<open>\<open>addJob\<close> up to its call of \<open>processNext\<close>: the new job object is stored under its id,
  the id is pushed on the wait-list and \<open>job-added\<close> is emitted.\<close>

definition enqueue ::
  "job_kind \<Rightarrow> 'd \<Rightarrow> timestamp \<Rightarrow> string \<Rightarrow> ('d, 'r) JobQueue \<Rightarrow> ('d, 'r) JobQueue" where
  "enqueue ty d now sfx s =
     (let jobId = make_id ty now sfx;
          a = length (heap s);
          job = \<lparr>job_id = jobId, job_type = ty, data = d, status = Pending, progress = None,
                 result = None, error = None, createdAt = now, startedAt = None,
                 completedAt = None\<rparr>
      in s\<lparr>heap := heap s @ [job],
           jobs := AList.update jobId a (jobs s),
           queue := queue s @ [jobId],
           emitted := emitted s @ [JobAdded a]\<rparr>)"

definition addJob ::
  "job_kind \<Rightarrow> 'd \<Rightarrow> timestamp \<Rightarrow> string \<Rightarrow> ('d, 'r) JobQueue \<Rightarrow> string \<times> ('d, 'r) JobQueue" where
  "addJob ty d now sfx s = (make_id ty now sfx, processNext now (enqueue ty d now sfx s))"

definition getJob :: "string \<Rightarrow> ('d, 'r) JobQueue \<Rightarrow> ('d, 'r) Job option" where
  "getJob jobId s = map_option (\<lambda>a. heap s ! a) (map_of (jobs s) jobId)"

definition updateProgress :: "string \<Rightarrow> int \<Rightarrow> ('d, 'r) JobQueue \<Rightarrow> ('d, 'r) JobQueue" where
  "updateProgress jobId p s =
     (case map_of (jobs s) jobId of
        None \<Rightarrow> s
      | Some a \<Rightarrow>
          s\<lparr>heap := (heap s)[a := (heap s ! a)\<lparr>progress := Some p\<rparr>],
            emitted := emitted s @ [JobProgress a]\<rparr>)"

definition expired :: "timestamp \<Rightarrow> ('d, 'r) Job \<Rightarrow> bool" where
  "expired now j =
     ((status j = Completed \<or> status j = Failed) \<and>
      (case completedAt j of None \<Rightarrow> False
       | Some c \<Rightarrow> int c < int now - 60 * 60 * 1000))"

definition cleanupOldJobs :: "timestamp \<Rightarrow> ('d, 'r) JobQueue \<Rightarrow> ('d, 'r) JobQueue" where
  "cleanupOldJobs now s =
     s\<lparr>jobs := filter (\<lambda>(jobId, a). \<not> expired now (heap s ! a)) (jobs s)\<rparr>"

subsection \<open>Runs of the queue\<close>

text \<open>
  Everything that can happen to the queue: a call of one of its methods (by an HTTP handler,
  by the sweep timer, or by the running worker), or the settling of the worker's promise for
  a job in flight. A run is any finite sequence of such events from the fresh queue. The
  settling of a job that is not in flight cannot happen and changes nothing.
\<close>

datatype ('d, 'r) event =
  SetWorker nat
| AddJob job_kind 'd timestamp string
| UpdateProgress string int
| Settle addr "'r outcome" timestamp
| CleanupOldJobs timestamp

fun step :: "('d, 'r) JobQueue \<Rightarrow> ('d, 'r) event \<Rightarrow> ('d, 'r) JobQueue" where
  "step s (SetWorker w) = setWorker w s"
| "step s (AddJob ty d now sfx) = snd (addJob ty d now sfx s)"
| "step s (UpdateProgress jobId p) = updateProgress jobId p s"
| "step s (Settle a out now) = settle a out now s"
| "step s (CleanupOldJobs now) = cleanupOldJobs now s"

definition run :: "('d, 'r) event list \<Rightarrow> ('d, 'r) JobQueue" where
  "run evs = foldl step new_JobQueue evs"

subsection \<open>Invariants of the queue\<close>

text \<open>At most one worker invocation is in flight, and the flag \<open>processing\<close> is set while there
  is one. As long as no \<open>catch\<close> has thrown, the flag is set exactly then.\<close>

definition flight_inv :: "('d, 'r) JobQueue \<Rightarrow> bool" where
  "flight_inv s = (inflight s = [] \<or> (\<exists>a. inflight s = [a] \<and> processing s))"

definition flight_exact :: "('d, 'r) JobQueue \<Rightarrow> bool" where
  "flight_exact s = (if processing s then (\<exists>a. inflight s = [a]) else inflight s = [])"

text \<open>The runs in which no worker promise rejects with \<open>null\<close> or \<open>undefined\<close>.\<close>

fun null_free :: "('d, 'r) event list \<Rightarrow> bool" where
  "null_free [] = True"
| "null_free (Settle a out now # evs) = (\<not> catch_throws out \<and> null_free evs)"
| "null_free (e # evs) = null_free evs"

text \<open>The job ids generated by the \<open>addJob\<close> calls of a run, in order.\<close>

fun ids_of :: "('d, 'r) event list \<Rightarrow> string list" where
  "ids_of [] = []"
| "ids_of (AddJob ty d now sfx # evs) = make_id ty now sfx # ids_of evs"
| "ids_of (e # evs) = ids_of evs"

fun note_addr :: "notification \<Rightarrow> addr" where
  "note_addr (JobAdded a) = a"
| "note_addr (JobStarted a) = a"
| "note_addr (JobProgress a) = a"
| "note_addr (JobCompleted a) = a"
| "note_addr (JobFailed a) = a"

text \<open>Every address the queue holds refers to an allocated job object, and \<open>jobs\<close> has one
  entry per key.\<close>

definition addrs_ok :: "('d, 'r) JobQueue \<Rightarrow> bool" where
  "addrs_ok s =
     (list_all (\<lambda>n. note_addr n < length (heap s)) (emitted s) \<and>
      list_all (\<lambda>a. a < length (heap s)) (inflight s) \<and>
      list_all (\<lambda>(jobId, a). a < length (heap s)) (jobs s) \<and>
      distinct (map fst (jobs s)))"

text \<open>While no worker is registered nothing waits and nothing runs.\<close>

definition idle_without_worker :: "('d, 'r) JobQueue \<Rightarrow> bool" where
  "idle_without_worker s = (worker s \<noteq> None \<or> (queue s = [] \<and> \<not> processing s))"

text \<open>A job object is out of the queue's reach when it is not in flight and no id on the
  wait-list resolves to it.\<close>

definition unreachable :: "addr \<Rightarrow> ('d, 'r) JobQueue \<Rightarrow> bool" where
  "unreachable a s =
     (a \<notin> set (inflight s) \<and> list_all (\<lambda>jobId. map_of (jobs s) jobId \<noteq> Some a) (queue s))"

text \<open>A job object is retired when it is out of the queue's reach; \<open>j\<close> is its content up to
  the field \<open>progress\<close>, and \<open>c\<close> the number of times it has been started.\<close>

definition retired ::
  "('d, 'r) Job \<Rightarrow> nat \<Rightarrow> addr \<Rightarrow> ('d, 'r) JobQueue \<Rightarrow> bool" where
  "retired j c a s =
     (a < length (heap s) \<and> (heap s ! a)\<lparr>progress := progress j\<rparr> = j \<and> unreachable a s \<and>
      count_list (emitted s) (JobStarted a) = c)"

subsection \<open>Dispatch order\<close>

text \<open>The jobs added, the jobs started, and the jobs settled, according to a sequence of
  notifications.\<close>

fun added_of :: "notification list \<Rightarrow> addr list" where
  "added_of [] = []"
| "added_of (JobAdded a # ns) = a # added_of ns"
| "added_of (n # ns) = added_of ns"

fun started_of :: "notification list \<Rightarrow> addr list" where
  "started_of [] = []"
| "started_of (JobStarted a # ns) = a # started_of ns"
| "started_of (n # ns) = started_of ns"

fun settled_of :: "notification list \<Rightarrow> addr list" where
  "settled_of [] = []"
| "settled_of (JobCompleted a # ns) = a # settled_of ns"
| "settled_of (JobFailed a # ns) = a # settled_of ns"
| "settled_of (n # ns) = settled_of ns"

text \<open>When a job is started, every job started before it has a smaller address and has
  settled; and no job settles before it has been started.\<close>

definition fifo_log :: "notification list \<Rightarrow> bool" where
  "fifo_log ns =
     (\<forall>xs b ys. ns = xs @ JobStarted b # ys \<longrightarrow>
        (\<forall>a \<in> set (started_of xs). a < b \<and> a \<in> set (settled_of xs)))"

definition settles_follow :: "notification list \<Rightarrow> bool" where
  "settles_follow ns =
     (\<forall>xs n ys. ns = xs @ n # ys \<longrightarrow> (\<forall>a \<in> set (settled_of [n]). a \<in> set (started_of xs)))"

text \<open>The number of jobs that have left the wait-list. With distinct ids the wait-list holds
  the ids of the job objects from this address on, all still pending. Unless the queue is
  stalled by a \<open>catch\<close> that threw, every job started is settled or in flight.\<close>

definition served :: "('d, 'r) JobQueue \<Rightarrow> nat" where
  "served s = length (heap s) - length (queue s)"

definition caught_up :: "('d, 'r) JobQueue \<Rightarrow> bool" where
  "caught_up s =
     (\<not> processing s \<or> inflight s \<noteq> [] \<longrightarrow>
        set (started_of (emitted s)) \<subseteq> set (settled_of (emitted s)) \<union> set (inflight s))"

definition fifo_inv :: "('d, 'r) JobQueue \<Rightarrow> bool" where
  "fifo_inv s =
     (length (queue s) \<le> length (heap s) \<and>
      distinct (map job_id (heap s)) \<and> [] \<notin> set (map job_id (heap s)) \<and>
      queue s = drop (served s) (map job_id (heap s)) \<and>
      (\<forall>i. served s \<le> i \<and> i < length (heap s) \<longrightarrow>
           status (heap s ! i) = Pending \<and> map_of (jobs s) (job_id (heap s ! i)) = Some i) \<and>
      (\<forall>a \<in> set (started_of (emitted s)). a < served s) \<and>
      (\<forall>a \<in> set (inflight s). a < served s \<and> a \<in> set (started_of (emitted s))) \<and>
      caught_up s \<and>
      fifo_log (emitted s) \<and> settles_follow (emitted s) \<and> flight_inv s)"

text \<open>Once a worker is registered, the job at address \<open>a\<close> is started when it leaves the
  wait-list.\<close>

definition served_started :: "addr \<Rightarrow> ('d, 'r) JobQueue \<Rightarrow> bool" where
  "served_started a s =
     (worker s \<noteq> None \<and> (a < served s \<longrightarrow> a \<in> set (started_of (emitted s))))"

text \<open>The notification that follows the recording of an outcome, if any.\<close>

fun outcome_notes :: "addr \<Rightarrow> 'r outcome \<Rightarrow> notification list" where
  "outcome_notes a (Resolved r) = [JobCompleted a]"
| "outcome_notes a (Rejected (Thrown m)) = [JobFailed a]"
| "outcome_notes a (Rejected ThrownNull) = []"

subsection \<open>Example runs\<close>

definition ex_done :: "(unit, unit) JobQueue" where
  "ex_done = run [SetWorker 0, AddJob FetchCommits () 5 ''x'', Settle 0 (Resolved ()) 9]"

definition ex_late_worker :: "(unit, unit) event list" where
  "ex_late_worker =
     [SetWorker 0, CleanupOldJobs 6, AddJob FetchAll () 7 ''b'', CleanupOldJobs 8]"

definition ex_two_jobs :: "(unit, unit) event list" where
  "ex_two_jobs =
     [SetWorker 0, AddJob FetchCommits () 5 ''a'', AddJob FetchAll () 6 ''b'',
      Settle 0 (Resolved ()) 7]"

definition ex_worker_late :: "(unit, unit) event list" where
  "ex_worker_late = [AddJob FetchCommits () 5 ''a'', SetWorker 0, AddJob FetchAll () 6 ''b'']"

definition ex_one_running :: "(unit, unit) event list" where
  "ex_one_running = [SetWorker 0, AddJob FetchCommits () 5 ''a'']"

text \<open>A run in which a fourth job is given the id of the second while both wait; a run in
  which the worker's promise rejects with \<open>null\<close> while a second job waits; and a run in which
  two waiting jobs have the same id and the job dispatched under it fails.\<close>

definition ex_collide :: "(unit, unit) event list" where
  "ex_collide =
     [SetWorker 0, AddJob FetchCommits () 5 ''a'', AddJob FetchAll () 6 ''b'',
      AddJob FetchAll () 7 ''c'', AddJob FetchAll () 6 ''b'', Settle 0 (Resolved ()) 8]"



section \<open>The commit fetcher (fetcher.ts, index.js)\<close>

subsection \<open>Commit data\<close>

record file_change =
  filename :: string
  file_status :: string
  file_additions :: int
  file_deletions :: int
  changes :: int
  patch :: "string option"

record CommitData =
  sha :: string
  fullSha :: string
  repo :: string
  commit_message :: string
  author :: string
  authorEmail :: string
  date :: string
  additions :: int
  deletions :: int
  totalChanges :: int
  filesChanged :: int
  files :: "file_change list"

text \<open>A commit reference as the listing call returns it: the full hash and the author's name.\<close>

record commit_ref =
  ref_sha :: string
  ref_author :: string

subsection \<open>The summarization capability\<close>

text \<open>
  The prompt is a fixed template filled with five values of the commit; the model keeps the
  values. The reply's \<open>choices\<close> may be missing, a choice's \<open>message\<close> may be missing, and the
  message's \<open>content\<close> is absent, a string, or a list of chunks. The client is a function from
  the prompt to a reply, or a thrown value when the call fails.

  The text of a reply is inspected character by character by \<open>trim\<close>, so it is kept as
  JavaScript has it, a sequence of UTF-16 code units; so is every summary made from it.
  The other strings are only compared, joined and tested for emptiness.
\<close>

type_synonym ustring = "16 word list"

datatype prompt = Prompt string string int int int

datatype content = Absent | Text ustring | Chunks

datatype choice = Choice "content option"

datatype chat_response = ChatResponse "choice list option"

type_synonym mistral = "prompt \<Rightarrow> thrown + chat_response"

definition show_int :: "int \<Rightarrow> string" where
  "show_int i = (if i < 0 then ''-'' @ show_nat (nat (- i)) else show_nat (nat i))"

fun join :: "string \<Rightarrow> string list \<Rightarrow> string" where
  "join sep [] = []"
| "join sep [x] = x"
| "join sep (x # y # ys) = x @ sep @ join sep (y # ys)"

definition file_line :: "file_change \<Rightarrow> string" where
  "file_line f =
     ''- '' @ filename f @ '' ('' @ file_status f @ ''): +'' @ show_int (file_additions f) @
     ''/-'' @ show_int (file_deletions f)"

definition build_prompt :: "CommitData \<Rightarrow> prompt" where
  "build_prompt c =
     Prompt (commit_message c) (join [CHR 0x0A] (map file_line (files c)))
       (additions c) (deletions c) (filesChanged c)"

text \<open>
  \<open>String.prototype.trim\<close> removes the leading and trailing code units that are white space
  or line terminators of ECMAScript: TAB, LF, VT, FF, CR, SPACE, NO-BREAK SPACE, the other
  space separators of Unicode (U+1680, U+2000 to U+200A, U+202F, U+205F, U+3000), the line
  and paragraph separators U+2028 and U+2029, and the byte order mark U+FEFF.
\<close>

definition is_space :: "16 word \<Rightarrow> bool" where
  "is_space c =
     (c \<in> {0x09, 0x0A, 0x0B, 0x0C, 0x0D, 0x20, 0xA0, 0x1680, 0x2028, 0x2029, 0x202F, 0x205F,
            0x3000, 0xFEFF} \<or>
      (0x2000 \<le> c \<and> c \<le> 0x200A))"

definition trim :: "ustring \<Rightarrow> ustring" where
  "trim s = rev (dropWhile is_space (rev (dropWhile is_space s)))"

text \<open>\<open>response.choices?.[0]?.message?.content\<close>\<close>

fun first_content :: "chat_response \<Rightarrow> content" where
  "first_content (ChatResponse None) = Absent"
| "first_content (ChatResponse (Some [])) = Absent"
| "first_content (ChatResponse (Some (Choice None # cs))) = Absent"
| "first_content (ChatResponse (Some (Choice (Some c) # cs))) = c"

text \<open>
  \<open>analyzeCommitWithAI\<close> of fetcher.ts. The result is \<open>Inl\<close> when the function throws, and
  otherwise the returned string or \<open>None\<close> for \<open>null\<close>. The body of the \<open>try\<close> is a function of
  its own, so that the \<open>catch\<close> is a branch of the model. The \<open>catch\<close> logs \<open>error.message\<close>
  before it returns \<open>null\<close>: reading the property of \<open>null\<close> or \<open>undefined\<close> is a \<open>TypeError\<close>,
  thrown out of the function.
\<close>

definition type_error :: thrown where
  "type_error = Thrown (Some ''TypeError'')"

definition analyze_body :: "mistral \<Rightarrow> CommitData \<Rightarrow> thrown + ustring option" where
  "analyze_body chat c =
     (case chat (build_prompt c) of
        Inl e \<Rightarrow> Inl e
      | Inr response \<Rightarrow>
          (case first_content response of
             Text t \<Rightarrow> Inr (Some (trim t))
           | _ \<Rightarrow> Inr None))"

definition analyzeCommitWithAI :: "mistral option \<Rightarrow> CommitData \<Rightarrow> thrown + ustring option" where
  "analyzeCommitWithAI client c =
     (case client of
        None \<Rightarrow> Inr None
      | Some chat \<Rightarrow>
          (case analyze_body chat c of
             Inl (Thrown m) \<Rightarrow> Inr None
           | Inl ThrownNull \<Rightarrow> Inl type_error
           | Inr summary \<Rightarrow> Inr summary))"

text \<open>
  \<open>analyzeCommitWithAI\<close> of index.js reads \<open>response.choices[0].message.content.trim()\<close>
  without guards: a missing link of the chain, or a content that is not a string, is a
  \<open>TypeError\<close> inside the \<open>try\<close>. The \<open>catch\<close> is that of fetcher.ts.
\<close>

definition analyze_body_js :: "mistral \<Rightarrow> CommitData \<Rightarrow> thrown + ustring option" where
  "analyze_body_js chat c =
     (case chat (build_prompt c) of
        Inl e \<Rightarrow> Inl e
      | Inr response \<Rightarrow>
          (case response of
             ChatResponse (Some (Choice (Some (Text t)) # cs)) \<Rightarrow> Inr (Some (trim t))
           | _ \<Rightarrow> Inl type_error))"

definition analyzeCommitWithAI_js :: "mistral option \<Rightarrow> CommitData \<Rightarrow> thrown + ustring option" where
  "analyzeCommitWithAI_js client c =
     (case client of
        None \<Rightarrow> Inr None
      | Some chat \<Rightarrow>
          (case analyze_body_js chat c of
             Inl (Thrown m) \<Rightarrow> Inr None
           | Inl ThrownNull \<Rightarrow> Inl type_error
           | Inr summary \<Rightarrow> Inr summary))"

subsection \<open>The datastore\<close>

text \<open>
  The SQLite engine is a parameter: what preparing each of the three statements does, what
  running a prepared write does to the database, and what the lookup of \<open>ai_summary\<close> by full
  hash returns (no row, or the row's nullable summary). Each may throw; what better-sqlite3
  throws is an error object (\<open>SqliteError\<close>, \<open>TypeError\<close>, \<open>RangeError\<close>), given here by its
  \<open>message\<close>, so that the \<open>catch\<close> blocks below can read \<open>error.message\<close>. A write is the
  \<open>INSERT OR REPLACE\<close> of a commit row, given by the commit, the summary and the analysis
  time bound to it, or of a file row, given by the commit's full hash and the file.
\<close>

type_synonym error_object = "string option"

datatype sql = SelectSummary | InsertCommitSql | InsertFileSql

datatype stmt =
  InsertCommit CommitData "ustring option" "timestamp option"
| InsertFile string file_change

record 'db engine =
  prepare :: "sql \<Rightarrow> error_object option"
  run_stmt :: "stmt \<Rightarrow> 'db \<Rightarrow> error_object + 'db"
  select_summary :: "'db \<Rightarrow> string \<Rightarrow> error_object + ustring option option"

text \<open>\<open>db.transaction(fn)()\<close> of better-sqlite3: the function runs between \<open>BEGIN\<close> and
  \<open>COMMIT\<close>; when it throws, the transaction is rolled back and the exception rethrown.\<close>

definition transaction ::
  "('db \<Rightarrow> error_object + 'db) \<Rightarrow> 'db \<Rightarrow> (error_object + unit) \<times> 'db" where
  "transaction fn db = (case fn db of Inl e \<Rightarrow> (Inl e, db) | Inr db' \<Rightarrow> (Inr (), db'))"

text \<open>A JavaScript string is truthy when it is present and not empty.\<close>

definition truthy :: "'a list option \<Rightarrow> bool" where
  "truthy s = (case s of None \<Rightarrow> False | Some t \<Rightarrow> t \<noteq> [])"

definition getCommitFromDB :: "'db engine \<Rightarrow> 'db \<Rightarrow> string \<Rightarrow> ustring option option" where
  "getCommitFromDB eng db full =
     (case prepare eng SelectSummary of
        Some e \<Rightarrow> None
      | None \<Rightarrow>
          (case select_summary eng db full of
             Inl e \<Rightarrow> None
           | Inr row \<Rightarrow> row))"

definition existing_summary :: "ustring option option \<Rightarrow> ustring option" where
  "existing_summary existingCommit =
     (case existingCommit of
        Some (Some s) \<Rightarrow> if s \<noteq> [] then Some s else None
      | _ \<Rightarrow> None)"

text \<open>The body of the transaction in \<open>saveCommitToDB\<close>: the commit row, then one row per file
  in order, \<open>file.patch || null\<close> bound as the patch.\<close>

definition file_row :: "file_change \<Rightarrow> file_change" where
  "file_row f = f\<lparr>patch := (if truthy (patch f) then patch f else None)\<rparr>"

fun insert_files ::
  "'db engine \<Rightarrow> string \<Rightarrow> file_change list \<Rightarrow> 'db \<Rightarrow> error_object + 'db" where
  "insert_files eng full [] db = Inr db"
| "insert_files eng full (f # fs) db =
     (case run_stmt eng (InsertFile full (file_row f)) db of
        Inl e \<Rightarrow> Inl e
      | Inr db' \<Rightarrow> insert_files eng full fs db')"

definition save_body ::
  "'db engine \<Rightarrow> timestamp \<Rightarrow> CommitData \<Rightarrow> ustring option \<Rightarrow> 'db \<Rightarrow> error_object + 'db" where
  "save_body eng now c aiSummary db =
     (case run_stmt eng
             (InsertCommit c aiSummary (if truthy aiSummary then Some now else None)) db of
        Inl e \<Rightarrow> Inl e
      | Inr db' \<Rightarrow> insert_files eng (fullSha c) (files c) db')"

text \<open>\<open>saveCommitToDB\<close>: the two statements are prepared outside the \<open>try\<close>, the transaction
  runs inside it. The result is \<open>Inl\<close> when the function throws, else the returned boolean.
  The \<open>catch\<close> logs the message of the error object and returns \<open>false\<close>.\<close>

definition saveCommitToDB ::
  "'db engine \<Rightarrow> timestamp \<Rightarrow> CommitData \<Rightarrow> ustring option \<Rightarrow> 'db \<Rightarrow> (thrown + bool) \<times> 'db" where
  "saveCommitToDB eng now c aiSummary db =
     (case prepare eng InsertCommitSql of
        Some e \<Rightarrow> (Inl (Thrown e), db)
      | None \<Rightarrow>
          (case prepare eng InsertFileSql of
             Some e \<Rightarrow> (Inl (Thrown e), db)
           | None \<Rightarrow>
               (case transaction (save_body eng now c aiSummary) db of
                  (Inl e, db') \<Rightarrow> (Inr False, db')
                | (Inr u, db') \<Rightarrow> (Inr True, db'))))"

text \<open>The writes of one commit, in the order the transaction issues them, and their
  application one after the other.\<close>

definition commit_stmts :: "timestamp \<Rightarrow> CommitData \<Rightarrow> ustring option \<Rightarrow> stmt list" where
  "commit_stmts now c aiSummary =
     InsertCommit c aiSummary (if truthy aiSummary then Some now else None) #
     map (\<lambda>f. InsertFile (fullSha c) (file_row f)) (files c)"

fun apply_stmts :: "'db engine \<Rightarrow> stmt list \<Rightarrow> 'db \<Rightarrow> error_object + 'db" where
  "apply_stmts eng [] db = Inr db"
| "apply_stmts eng (q # qs) db =
     (case run_stmt eng q db of Inl e \<Rightarrow> Inl e | Inr db' \<Rightarrow> apply_stmts eng qs db')"

subsection \<open>The remote gateway, the configuration and the effects of a job\<close>

text \<open>
  A job runs against a world: the datastore engine, the two configured secrets, the
  summarization service that \<open>new Mistral({ apiKey })\<close> reaches, and the two gateway calls of
  the fetcher, \<open>getCommits\<close> (with the job's filters and date; it returns the empty list on
  failure) and \<open>getCommitDetailsWithDiff\<close> (\<open>None\<close> on failure). The job builds the SDK's
  client itself, and a call of the SDK that fails rejects with an error object, given here
  by its \<open>message\<close>. \<open>round_percent k n\<close> stands for \<open>Math.round((k / n) * 100)\<close> in double
  arithmetic. Pacing delays are not modelled.
\<close>

record 'db world =
  db_engine :: "'db engine"
  github_token :: "string option"
  mistral_api_key :: "string option"
  mistral_client :: "prompt \<Rightarrow> error_object + chat_response"
  getCommits :: "string \<Rightarrow> string \<Rightarrow> commit_ref list"
  getCommitDetailsWithDiff :: "string \<Rightarrow> string \<Rightarrow> string \<Rightarrow> CommitData option"
  round_percent :: "nat \<Rightarrow> nat \<Rightarrow> int"

definition sdk_client :: "(prompt \<Rightarrow> error_object + chat_response) \<Rightarrow> mistral" where
  "sdk_client chat p = (case chat p of Inl m \<Rightarrow> Inl (Thrown m) | Inr response \<Rightarrow> Inr response)"

text \<open>The calls a job makes, in order: progress reports to the queue, listing and detail
  calls to the gateway, calls of \<open>analyzeCommitWithAI\<close> and calls of \<open>saveCommitToDB\<close>.\<close>

datatype action =
  ReportProgress string int
| ListCommits string string
| GetDetail string string string
| Summarize string
| Save string

text \<open>The state of a running job: the database, the results collected, the calls made, and
  the exception that ended it, if any.\<close>

record ('db, 'res) wstate =
  wdb :: 'db
  wresults :: "'res list"
  wtrace :: "action list"
  raised :: "thrown option"

definition did :: "action \<Rightarrow> ('db, 'res) wstate \<Rightarrow> ('db, 'res) wstate" where
  "did act st = st\<lparr>wtrace := wtrace st @ [act]\<rparr>"

text \<open>The annotation step shared by both loops: the stored summary is reused when there is
  one, else the summarizer is called when a client is configured.\<close>

definition annotate ::
  "(mistral option \<Rightarrow> CommitData \<Rightarrow> thrown + ustring option) \<Rightarrow> mistral option \<Rightarrow>
   ustring option option \<Rightarrow> CommitData \<Rightarrow> ('db, 'res) wstate \<Rightarrow>
   (thrown + ustring option) \<times> ('db, 'res) wstate" where
  "annotate analyze client existingCommit c st =
     (case existing_summary existingCommit of
        Some s \<Rightarrow> (Inr (Some s), st)
      | None \<Rightarrow>
          (case client of
             None \<Rightarrow> (Inr None, st)
           | Some chat \<Rightarrow> (analyze client c, did (Summarize (fullSha c)) st)))"

text \<open>\<open>if (fetcher.saveCommitToDB(...)) results.push(...)\<close>\<close>

definition save_step ::
  "'db world \<Rightarrow> timestamp \<Rightarrow> CommitData \<Rightarrow> ustring option \<Rightarrow> 'res \<Rightarrow>
   ('db, 'res) wstate \<Rightarrow> ('db, 'res) wstate" where
  "save_step w now c aiSummary entry st =
     (case saveCommitToDB (db_engine w) now c aiSummary (wdb st) of
        (Inl e, db') \<Rightarrow> (did (Save (fullSha c)) st)\<lparr>wdb := db', raised := Some e\<rparr>
      | (Inr saved, db') \<Rightarrow>
          (did (Save (fullSha c)) st)
            \<lparr>wdb := db', wresults := (if saved then wresults st @ [entry] else wresults st)\<rparr>)"

subsection \<open>The worker of \<open>fetch-commits\<close> jobs (server index.ts)\<close>

record commit_summary =
  res_sha :: string
  res_repo :: string
  res_message :: string
  res_author :: string
  res_filesChanged :: int
  res_additions :: int
  res_deletions :: int
  res_aiSummary :: "ustring option"

record fetch_result =
  success :: bool
  collected :: nat
  results :: "commit_summary list"

record payload =
  repos :: "string list"
  limit :: "int option"
  useAI :: bool

definition first_line :: "string \<Rightarrow> string" where
  "first_line s = takeWhile (\<lambda>c. c \<noteq> CHR 0x0A) s"

definition summary_of :: "CommitData \<Rightarrow> ustring option \<Rightarrow> commit_summary" where
  "summary_of details aiSummary =
     \<lparr>res_sha = sha details, res_repo = repo details,
      res_message = first_line (commit_message details), res_author = author details,
      res_filesChanged = filesChanged details, res_additions = additions details,
      res_deletions = deletions details, res_aiSummary = aiSummary\<rparr>"

definition worker_commit ::
  "'db world \<Rightarrow> mistral option \<Rightarrow> timestamp \<Rightarrow> string \<Rightarrow> string \<Rightarrow> commit_ref \<Rightarrow>
   ('db, commit_summary) wstate \<Rightarrow> ('db, commit_summary) wstate" where
  "worker_commit w client now owner name commit st =
     (let st1 = did (GetDetail owner name (ref_sha commit)) st in
      case getCommitDetailsWithDiff w owner name (ref_sha commit) of
        None \<Rightarrow> st1
      | Some details \<Rightarrow>
          (let existingCommit = getCommitFromDB (db_engine w) (wdb st1) (fullSha details) in
           case annotate analyzeCommitWithAI client existingCommit details st1 of
             (Inl e, st2) \<Rightarrow> st2\<lparr>raised := Some e\<rparr>
           | (Inr aiSummary, st2) \<Rightarrow>
               save_step w now details aiSummary (summary_of details aiSummary) st2))"

fun worker_commits ::
  "'db world \<Rightarrow> mistral option \<Rightarrow> timestamp \<Rightarrow> string \<Rightarrow> string \<Rightarrow> commit_ref list \<Rightarrow>
   ('db, commit_summary) wstate \<Rightarrow> ('db, commit_summary) wstate" where
  "worker_commits w client now owner name [] st = st"
| "worker_commits w client now owner name (commit # commits) st =
     (let st' = worker_commit w client now owner name commit st
      in if raised st' = None then worker_commits w client now owner name commits st' else st')"

text \<open>\<open>commits.slice(0, limit)\<close>: a negative end counts from the end of the list.\<close>

definition slice0 :: "int \<Rightarrow> 'a list \<Rightarrow> 'a list" where
  "slice0 n xs = (if n < 0 then take (nat (int (length xs) + n)) xs else take (nat n) xs)"

text \<open>\<open>repoStr.split("/")\<close>, of which the first two parts are read.\<close>

fun split_slash :: "string \<Rightarrow> string list" where
  "split_slash [] = [[]]"
| "split_slash (c # cs) =
     (if c = CHR ''/'' then [] # split_slash cs
      else (c # hd (split_slash cs)) # tl (split_slash cs))"

definition worker_repo ::
  "'db world \<Rightarrow> mistral option \<Rightarrow> timestamp \<Rightarrow> string \<Rightarrow> int \<Rightarrow> nat \<Rightarrow> nat \<Rightarrow> string \<Rightarrow>
   ('db, commit_summary) wstate \<Rightarrow> ('db, commit_summary) wstate" where
  "worker_repo w client now jobId lim n i repoStr st =
     (case split_slash repoStr of
        owner # name # others \<Rightarrow>
          if owner = [] \<or> name = [] then st
          else
            (let st1 = did (ReportProgress jobId (round_percent w (i + 1) n)) st;
                 commits = getCommits w owner name;
                 st2 = did (ListCommits owner name) st1
             in if length commits > 0
                then worker_commits w client now owner name (slice0 lim commits) st2
                else st2)
      | _ \<Rightarrow> st)"

fun worker_repos ::
  "'db world \<Rightarrow> mistral option \<Rightarrow> timestamp \<Rightarrow> string \<Rightarrow> int \<Rightarrow> nat \<Rightarrow> nat \<Rightarrow> string list \<Rightarrow>
   ('db, commit_summary) wstate \<Rightarrow> ('db, commit_summary) wstate" where
  "worker_repos w client now jobId lim n i [] st = st"
| "worker_repos w client now jobId lim n i (repoStr # rest) st =
     (let st' = worker_repo w client now jobId lim n i repoStr st
      in if raised st' = None then worker_repos w client now jobId lim n (Suc i) rest st'
         else st')"

definition token_missing :: thrown where
  "token_missing = Thrown (Some
     (''GitHub token not configured. Please generate a GitHub Personal Access Token at '' @
      ''https://github.com/settings/tokens and configure it in the settings.''))"

text \<open>The \<open>fetch-commits\<close> branch of the registered worker: its outcome, the database it
  leaves, and the calls it made. Opening the database and reading the configuration are
  taken to succeed; \<open>now\<close> is the time bound as \<open>ai_analyzed_at\<close>.\<close>

definition fetch_commits_worker ::
  "'db world \<Rightarrow> timestamp \<Rightarrow> string \<Rightarrow> payload \<Rightarrow> 'db \<Rightarrow>
   fetch_result outcome \<times> 'db \<times> action list" where
  "fetch_commits_worker w now jobId p db =
     (if \<not> truthy (github_token w) then (Rejected token_missing, db, [])
      else
        (let client = (if useAI p \<and> truthy (mistral_api_key w)
                       then Some (sdk_client (mistral_client w)) else None);
             lim = (case limit p of None \<Rightarrow> 5 | Some l \<Rightarrow> l);
             st = worker_repos w client now jobId lim (length (repos p)) 0 (repos p)
                    \<lparr>wdb = db, wresults = [], wtrace = [], raised = None\<rparr>
         in case raised st of
              Some e \<Rightarrow> (Rejected e, wdb st, wtrace st)
            | None \<Rightarrow>
                (Resolved \<lparr>success = True, collected = length (wresults st),
                           results = wresults st\<rparr>,
                 wdb st, wtrace st)))"

text \<open>What the run of the worker means for the queue: each progress report is a call of
  \<open>updateProgress\<close>, and the outcome settles the job in flight at address \<open>a\<close>.\<close>

fun progress_events :: "action list \<Rightarrow> ('d, 'r) event list" where
  "progress_events [] = []"
| "progress_events (ReportProgress jobId p # acts) = UpdateProgress jobId p # progress_events acts"
| "progress_events (act # acts) = progress_events acts"


subsection \<open>The commit loop of the full collection (index.js)\<close>

definition main_commit ::
  "'db world \<Rightarrow> string list \<Rightarrow> mistral option \<Rightarrow> timestamp \<Rightarrow> string \<Rightarrow> string \<Rightarrow>
   commit_ref \<Rightarrow> ('db, CommitData) wstate \<Rightarrow> ('db, CommitData) wstate" where
  "main_commit w blacklistAuthors client now owner name commit st =
     (if length blacklistAuthors > 0 \<and> ref_author commit \<in> set blacklistAuthors then st
      else
        (let existingCommit = getCommitFromDB (db_engine w) (wdb st) (ref_sha commit) in
         if existing_summary existingCommit \<noteq> None then st
         else
           (let st1 = did (GetDetail owner name (ref_sha commit)) st in
            case getCommitDetailsWithDiff w owner name (ref_sha commit) of
              None \<Rightarrow> st1
            | Some details \<Rightarrow>
                (let commitData = details\<lparr>repo := owner @ ''/'' @ name\<rparr> in
                 case annotate analyzeCommitWithAI_js client existingCommit commitData st1 of
                   (Inl e, st2) \<Rightarrow> st2\<lparr>raised := Some e\<rparr>
                 | (Inr aiSummary, st2) \<Rightarrow>
                     save_step w now commitData aiSummary commitData st2))))"

fun main_commits ::
  "'db world \<Rightarrow> string list \<Rightarrow> mistral option \<Rightarrow> timestamp \<Rightarrow> string \<Rightarrow> string \<Rightarrow>
   commit_ref list \<Rightarrow> ('db, CommitData) wstate \<Rightarrow> ('db, CommitData) wstate" where
  "main_commits w blacklistAuthors client now owner name [] st = st"
| "main_commits w blacklistAuthors client now owner name (commit # commits) st =
     (let st' = main_commit w blacklistAuthors client now owner name commit st
      in if raised st' = None
         then main_commits w blacklistAuthors client now owner name commits st' else st')"

subsection \<open>An example world\<close>

text \<open>A datastore that is the list of the writes applied to it, in which chosen writes fail;
  a lookup returns the summary of the latest commit row with the hash.\<close>

fun log_summary :: "stmt list \<Rightarrow> string \<Rightarrow> ustring option option" where
  "log_summary [] full = None"
| "log_summary (InsertCommit c aiSummary t # qs) full =
     (case log_summary qs full of
        Some row \<Rightarrow> Some row
      | None \<Rightarrow> if fullSha c = full then Some aiSummary else None)"
| "log_summary (InsertFile full' f # qs) full = log_summary qs full"

definition log_engine :: "(stmt \<Rightarrow> bool) \<Rightarrow> stmt list engine" where
  "log_engine fails =
     \<lparr>prepare = (\<lambda>q. None),
      run_stmt = (\<lambda>q db. if fails q then Inl (Some ''SQLITE_FULL'') else Inr (db @ [q])),
      select_summary = (\<lambda>db full. Inr (log_summary db full))\<rparr>"

fun is_file_insert :: "stmt \<Rightarrow> bool" where
  "is_file_insert (InsertFile full f) = True"
| "is_file_insert q = False"

fun no_fault :: "stmt \<Rightarrow> bool" where
  "no_fault q = False"

definition ex_commit :: CommitData where
  "ex_commit =
     \<lparr>sha = ''abc1234'', fullSha = ''abc1234def'', repo = ''acme/widgets'',
      commit_message = ''fix parser'', author = ''ann'', authorEmail = ''ann@example.org'',
      date = ''2024-01-01T00:00:00Z'', additions = 1, deletions = 0, totalChanges = 1,
      filesChanged = 1,
      files = [\<lparr>filename = ''a.ts'', file_status = ''modified'', file_additions = 1,
                file_deletions = 0, changes = 1, patch = None\<rparr>]\<rparr>"

text \<open>A summarizer whose reply has the empty string as content, one whose reply is white
  space only (a space, a no-break space, an ideographic space, a byte order mark and an em
  space), one whose reply is \<open>OK\<close> between a no-break space and a line feed, and one whose call
  rejects with \<open>null\<close>.\<close>

definition empty_reply :: mistral where
  "empty_reply p = Inr (ChatResponse (Some [Choice (Some (Text []))]))"

definition blank_reply :: mistral where
  "blank_reply p =
     Inr (ChatResponse (Some [Choice (Some (Text [0x20, 0xA0, 0x3000, 0xFEFF, 0x2003]))]))"

definition padded_reply :: mistral where
  "padded_reply p = Inr (ChatResponse (Some [Choice (Some (Text [0xA0, 0x4F, 0x4B, 0x0A]))]))"

definition null_reject :: mistral where
  "null_reject p = Inl ThrownNull"

definition empty_service :: "prompt \<Rightarrow> error_object + chat_response" where
  "empty_service p = Inr (ChatResponse (Some [Choice (Some (Text []))]))"

text \<open>The summary \<open>OK\<close>.\<close>

definition ex_summary :: ustring where
  "ex_summary = [0x4F, 0x4B]"

text \<open>Rounding to the nearest integer, halves up, in exact arithmetic.\<close>

definition exact_percent :: "nat \<Rightarrow> nat \<Rightarrow> int" where
  "exact_percent k n = (200 * int k + int n) div (2 * int n)"

definition ex_world :: "(stmt \<Rightarrow> bool) \<Rightarrow> stmt list world" where
  "ex_world fails =
     \<lparr>db_engine = log_engine fails,
      github_token = Some ''ghp_token'',
      mistral_api_key = Some ''key'',
      mistral_client = empty_service,
      getCommits = (\<lambda>owner name. [\<lparr>ref_sha = ''abc1234def'', ref_author = ''ann''\<rparr>]),
      getCommitDetailsWithDiff = (\<lambda>owner name full. Some ex_commit),
      round_percent = exact_percent\<rparr>"

definition ex_payload :: payload where
  "ex_payload = \<lparr>repos = [''acme/widgets''], limit = None, useAI = False\<rparr>"

text \<open>A run of the queue with one \<open>fetch-commits\<close> job, started, and then executed in the
  example world in which every write of a file row fails.\<close>

definition ex_started :: "(payload, fetch_result) event list" where
  "ex_started = [SetWorker 0, AddJob FetchCommits ex_payload 5 ''a'']"


definition ex_wstate :: "(stmt list, commit_summary) wstate" where
  "ex_wstate = \<lparr>wdb = [], wresults = [], wtrace = [], raised = None\<rparr>"

text \<open>A stored commit with a summary, one with the empty string as summary, and the reference
  to it that a listing returns.\<close>

definition ex_ref :: commit_ref where
  "ex_ref = \<lparr>ref_sha = ''abc1234def'', ref_author = ''ann''\<rparr>"

definition ex_annotated :: "(stmt list, 'res) wstate" where
  "ex_annotated =
     \<lparr>wdb = [InsertCommit ex_commit (Some ex_summary) (Some 1)], wresults = [],
      wtrace = [], raised = None\<rparr>"

definition ex_blank :: "(stmt list, 'res) wstate" where
  "ex_blank =
     \<lparr>wdb = [InsertCommit ex_commit (Some []) None], wresults = [], wtrace = [],
      raised = None\<rparr>"

subsection \<open>Repository-level calls\<close>

text \<open>The calls made once per repository, and what the worker does first for the repository
  at index \<open>k\<close> of \<open>n\<close>: nothing when the entry is not of the form owner/name, else the progress
  report and then the listing call.\<close>

fun repo_level :: "action \<Rightarrow> bool" where
  "repo_level (ReportProgress jobId p) = True"
| "repo_level (ListCommits owner name) = True"
| "repo_level act = False"

definition repo_header :: "'db world \<Rightarrow> string \<Rightarrow> nat \<Rightarrow> nat \<Rightarrow> string \<Rightarrow> action list" where
  "repo_header w jobId n k repoStr =
     (case split_slash repoStr of
        owner # name # others \<Rightarrow>
          if owner = [] \<or> name = [] then []
          else [ReportProgress jobId (round_percent w (k + 1) n), ListCommits owner name]
      | _ \<Rightarrow> [])"

section \<open>Properties of the job queue\<close>

subsection \<open>Reasoning about the dispatch loop\<close>

lemma processNext_rule:
  assumes "P s"
    and skip: "\<And>s jobId rest. P s \<Longrightarrow> \<not> processing s \<Longrightarrow> queue s = jobId # rest \<Longrightarrow>
             jobId = [] \<or> map_of (jobs s) jobId = None \<or> worker s = None \<Longrightarrow>
             P (s\<lparr>queue := rest, processing := False\<rparr>)"
    and start: "\<And>s jobId rest a w now. P s \<Longrightarrow> \<not> processing s \<Longrightarrow> queue s = jobId # rest \<Longrightarrow>
             jobId \<noteq> [] \<Longrightarrow> map_of (jobs s) jobId = Some a \<Longrightarrow> worker s = Some w \<Longrightarrow>
             P (start_job now a (s\<lparr>queue := rest, processing := True\<rparr>))"
  shows "P (processNext now s)"
  using assms(1)
proof (induction now s rule: processNext.induct)
  case (1 now s)
  show ?case
  proof (cases "processing s \<or> queue s = []")
    case True
    then show ?thesis using 1(3) by (simp add: processNext.simps)
  next
    case False
    then obtain jobId rest where q: "queue s = jobId # rest" by (cases "queue s") auto
    from False have np: "\<not> processing s" by simp
    show ?thesis
    proof (cases "jobId = []")
      case True
      then show ?thesis using q np skip[OF 1(3) np q] by (simp add: processNext.simps)
    next
      case ne: False
      show ?thesis
      proof (cases "map_of (jobs s) jobId")
        case None
        have "P (s\<lparr>queue := rest, processing := False\<rparr>)" using skip[OF 1(3) np q] None by simp
        then have "P (processNext now (s\<lparr>queue := rest, processing := False\<rparr>))"
          using 1(1)[OF False q ne None] by simp
        then show ?thesis using q np ne None by (simp add: processNext.simps)
      next
        case (Some a)
        show ?thesis
        proof (cases "worker s")
          case None
          have "P (s\<lparr>queue := rest, processing := False\<rparr>)" using skip[OF 1(3) np q] None by simp
          then have "P (processNext now (s\<lparr>queue := rest, processing := False\<rparr>))"
            using 1(2)[OF False q ne Some None] by simp
          then show ?thesis using q np ne Some None by (simp add: processNext.simps)
        next
          case w: (Some w)
          have "processNext now s = start_job now a (s\<lparr>queue := rest, processing := True\<rparr>)"
            using q np ne Some w by (simp add: processNext.simps)
          then show ?thesis using start[OF 1(3) np q ne Some w] by simp
        qed
      qed
    qed
  qed
qed


lemma processNext_idle:
  "queue s = [] \<Longrightarrow> processNext now s = s"
  "processing s \<Longrightarrow> processNext now s = s"
  by (simp_all add: processNext.simps)

lemma jobs_processNext [simp]: "jobs (processNext now s) = jobs s"
  by (rule processNext_rule [where P = "\<lambda>t. jobs t = jobs s"]) (simp_all add: start_job_def)

lemma worker_processNext [simp]: "worker (processNext now s) = worker s"
  by (rule processNext_rule [where P = "\<lambda>t. worker t = worker s"]) (simp_all add: start_job_def)

lemma length_heap_processNext [simp]: "length (heap (processNext now s)) = length (heap s)"
  by (rule processNext_rule [where P = "\<lambda>t. length (heap t) = length (heap s)"])
     (simp_all add: start_job_def)

lemma map_of_filter_keep:
  "map_of xs k = Some v \<Longrightarrow> P (k, v) \<Longrightarrow> map_of (filter P xs) k = Some v"
  by (induction xs) (auto split: if_splits)

lemma map_of_filter_cases:
  "map_of (filter P xs) k = Some v \<Longrightarrow> (k, v) \<in> set xs"
  by (induction xs) (auto split: if_splits)

lemma run_snoc: "run (evs @ [e]) = step (run evs) e"
  by (simp add: run_def)

lemma map_job_id_update:
  "job_id j = job_id (h ! a) \<Longrightarrow> map job_id (h[a := j]) = map job_id h"
  by (cases "a < length h") (simp_all add: map_update list_update_beyond list_update_same_conv)

subsection \<open>What recording an outcome changes\<close>

lemma record_outcome_frame [simp]:
  "jobs (record_outcome a out now s) = jobs s"
  "queue (record_outcome a out now s) = queue s"
  "processing (record_outcome a out now s) = processing s"
  "worker (record_outcome a out now s) = worker s"
  "inflight (record_outcome a out now s) = inflight s"
  "length (heap (record_outcome a out now s)) = length (heap s)"
  "map job_id (heap (record_outcome a out now s)) = map job_id (heap s)"
  "emitted (record_outcome a out now s) = emitted s @ outcome_notes a out"
  by (simp_all add: record_outcome_def map_job_id_update split: outcome.splits thrown.splits)

lemma nth_outcome_update:
  "a \<noteq> i \<Longrightarrow> heap (record_outcome a out now s) ! i = heap s ! i"
  by (cases out) (simp_all add: record_outcome_def split: thrown.splits)

lemma outcome_notes_no_start [simp]:
  "JobStarted b \<notin> set (outcome_notes a out)"
  "JobAdded b \<notin> set (outcome_notes a out)"
  "list_all (\<lambda>n. note_addr n = a) (outcome_notes a out)"
  by (induction a out rule: outcome_notes.induct) simp_all

subsection \<open>One invocation at a time\<close>

lemma processNext_flight_inv: "flight_inv s \<Longrightarrow> flight_inv (processNext now s)"
  by (rule processNext_rule [where P = flight_inv])
     (auto simp: flight_inv_def start_job_def)

lemma processNext_flight_exact: "flight_exact s \<Longrightarrow> flight_exact (processNext now s)"
  by (rule processNext_rule [where P = flight_exact])
     (auto simp: flight_exact_def start_job_def)

lemma step_flight_inv: "flight_inv s \<Longrightarrow> flight_inv (step s e)"
proof (cases e)
  case (Settle a out now)
  assume inv: "flight_inv s"
  show ?thesis
  proof (cases "a \<in> set (inflight s)")
    case True
    with inv have "inflight s = [a]" by (auto simp: flight_inv_def)
    then have "flight_inv ((record_outcome a out now s)\<lparr>processing := False, inflight := remove1 a (inflight s)\<rparr>)"
      "flight_inv ((record_outcome a out now s)\<lparr>inflight := remove1 a (inflight s)\<rparr>)"
      by (simp_all add: flight_inv_def)
    then show ?thesis using True Settle by (simp add: settle_def processNext_flight_inv)
  next
    case False
    then show ?thesis using inv Settle by (simp add: settle_def)
  qed
next
  case (AddJob ty d now sfx)
  assume inv: "flight_inv s"
  then have "flight_inv (enqueue ty d now sfx s)"
    by (simp add: flight_inv_def enqueue_def Let_def)
  then show ?thesis using AddJob
    by (simp add: addJob_def processNext_flight_inv)
qed (auto simp: flight_inv_def setWorker_def updateProgress_def cleanupOldJobs_def split: option.splits)

lemma step_flight_exact:
  "flight_exact s \<Longrightarrow> null_free [e] \<Longrightarrow> flight_exact (step s e)"
proof (cases e)
  case (Settle a out now)
  assume inv: "flight_exact s" and nf: "null_free [e]"
  show ?thesis
  proof (cases "a \<in> set (inflight s)")
    case True
    with inv have "inflight s = [a]" by (auto simp: flight_exact_def split: if_splits)
    then have "flight_exact ((record_outcome a out now s)\<lparr>processing := False, inflight := remove1 a (inflight s)\<rparr>)"
      by (simp add: flight_exact_def)
    then show ?thesis using True Settle nf by (simp add: settle_def processNext_flight_exact)
  next
    case False
    then show ?thesis using inv Settle by (simp add: settle_def)
  qed
next
  case (AddJob ty d now sfx)
  assume inv: "flight_exact s"
  then have "flight_exact (enqueue ty d now sfx s)"
    by (simp add: flight_exact_def enqueue_def Let_def)
  then show ?thesis using AddJob
    by (simp add: addJob_def processNext_flight_exact)
qed (auto simp: flight_exact_def setWorker_def updateProgress_def cleanupOldJobs_def split: option.splits)

lemma null_free_append: "null_free (xs @ ys) \<longleftrightarrow> null_free xs \<and> null_free ys"
  by (induction xs rule: null_free.induct) simp_all

lemma run_flight_inv: "flight_inv (run evs)"
  by (induction evs rule: rev_induct)
     (simp_all add: run_snoc step_flight_inv, simp add: run_def new_JobQueue_def flight_inv_def)

lemma run_flight_exact: "null_free evs \<Longrightarrow> flight_exact (run evs)"
proof (induction evs rule: rev_induct)
  case Nil
  show ?case by (simp add: run_def new_JobQueue_def flight_exact_def)
next
  case (snoc e evs)
  then show ?case by (simp add: run_snoc null_free_append step_flight_exact)
qed

text \<open>
  C1. In every run of the queue, whatever the jobs enqueued and whenever and however the
  worker's promises settle, at most one worker invocation is in flight, and the flag
  \<open>processing\<close> is set while there is one: \<open>processNext\<close> starts a job only when the flag is
  clear, and the flag is cleared only by the continuation of the invocation that set it. In
  the runs in which no promise rejects with \<open>null\<close> or \<open>undefined\<close>, the flag is set exactly
  while an invocation is in flight.
\<close>

theorem single_flight:
  fixes evs :: "('d, 'r) event list"
  shows "length (inflight (run evs)) \<le> 1 \<and>
         (inflight (run evs) \<noteq> [] \<longrightarrow> processing (run evs)) \<and>
         (null_free evs \<longrightarrow> (processing (run evs) \<longleftrightarrow> inflight (run evs) \<noteq> []))"
proof -
  have "flight_inv (run evs)" by (rule run_flight_inv)
  moreover have "flight_exact (run evs)" if "null_free evs" using that by (rule run_flight_exact)
  ultimately show ?thesis by (auto simp: flight_inv_def flight_exact_def split: if_splits)
qed

lemma ex_one_running_flight:
  "null_free ex_one_running" "inflight (run ex_one_running) = [0]"
  by code_simp+

theorem single_flight_witness:
  "null_free ex_one_running \<and> inflight (run ex_one_running) \<noteq> [] \<and>
   processing (run ex_one_running) \<and> length (inflight (run ex_one_running)) \<le> 1"
  using single_flight [of ex_one_running] ex_one_running_flight by simp

subsection \<open>updateProgress\<close>

text \<open>
  C10. \<open>updateProgress\<close> on an id that names no job changes nothing. On the id of a job it
  leaves \<open>jobs\<close>, the wait-list, the flag, the worker and the in-flight list as they were,
  emits one \<open>job-progress\<close> notification, and changes the store only at that job object, where
  only the field \<open>progress\<close> is overwritten; no condition on the job's status is involved, so
  the write also reaches completed and failed jobs.
\<close>

theorem updateProgress_frame:
  fixes s :: "('d, 'r) JobQueue"
  shows "(map_of (jobs s) jobId = None \<longrightarrow> updateProgress jobId p s = s) \<and>
    (\<forall>a. map_of (jobs s) jobId = Some a \<longrightarrow>
       jobs (updateProgress jobId p s) = jobs s \<and>
       queue (updateProgress jobId p s) = queue s \<and>
       processing (updateProgress jobId p s) = processing s \<and>
       worker (updateProgress jobId p s) = worker s \<and>
       inflight (updateProgress jobId p s) = inflight s \<and>
       emitted (updateProgress jobId p s) = emitted s @ [JobProgress a] \<and>
       length (heap (updateProgress jobId p s)) = length (heap s) \<and>
       (\<forall>b. b \<noteq> a \<longrightarrow> heap (updateProgress jobId p s) ! b = heap s ! b) \<and>
       (a < length (heap s) \<longrightarrow>
          heap (updateProgress jobId p s) ! a = (heap s ! a)\<lparr>progress := Some p\<rparr>))"
  by (simp add: updateProgress_def)

lemma ex_done_eval:
  "map_of (jobs ex_done) (make_id FetchCommits 5 ''x'') = Some 0"
  "length (heap ex_done) = 1"
  "status (heap ex_done ! 0) = Completed"
  "map_of (jobs ex_done) ''no-such-job'' = None"
  by code_simp+

theorem updateProgress_frame_witness:
  "map_of (jobs ex_done) (make_id FetchCommits 5 ''x'') = Some 0 \<and>
   status (heap ex_done ! 0) = Completed \<and>
   heap (updateProgress (make_id FetchCommits 5 ''x'') 40 ex_done) ! 0
     = (heap ex_done ! 0)\<lparr>progress := Some 40\<rparr> \<and>
   queue (updateProgress (make_id FetchCommits 5 ''x'') 40 ex_done) = queue ex_done \<and>
   map_of (jobs ex_done) ''no-such-job'' = None \<and>
   updateProgress ''no-such-job'' 40 ex_done = ex_done"
  using updateProgress_frame [of ex_done "make_id FetchCommits 5 ''x''" 40]
        updateProgress_frame [of ex_done "''no-such-job''" 40] ex_done_eval
  by simp


subsection \<open>Jobs that meet no worker\<close>

lemma step_idle_without_worker:
  "idle_without_worker s \<Longrightarrow> idle_without_worker (step s e)"
proof (cases e)
  case (AddJob ty d now sfx)
  assume a: "idle_without_worker s"
  show ?thesis
  proof (cases "worker s")
    case None
    with a have q: "queue s = []" "\<not> processing s" by (auto simp: idle_without_worker_def)
    let ?t = "enqueue ty d now sfx s"
    have t: "queue ?t = [make_id ty now sfx]" "\<not> processing ?t" "worker ?t = None"
      using q None by (simp_all add: enqueue_def Let_def)
    have "processNext now ?t = ?t\<lparr>queue := [], processing := False\<rparr>"
      using t
      by (subst processNext.simps) (simp add: processNext_idle split: option.splits)
    then show ?thesis using AddJob None by (simp add: addJob_def idle_without_worker_def)
  next
    case (Some w)
    then show ?thesis using AddJob by (simp add: addJob_def idle_without_worker_def enqueue_def Let_def)
  qed
next
  case (Settle a out now)
  assume a: "idle_without_worker s"
  show ?thesis
  proof (cases "worker s")
    case None
    with a have q: "queue s = []" "\<not> processing s" by (auto simp: idle_without_worker_def)
    then show ?thesis using Settle a None
      by (simp add: settle_def idle_without_worker_def processNext_idle)
  next
    case (Some w)
    then show ?thesis using Settle
      by (simp add: settle_def idle_without_worker_def)
  qed
qed (auto simp: idle_without_worker_def setWorker_def updateProgress_def cleanupOldJobs_def
          split: option.splits)

lemma run_idle_without_worker: "idle_without_worker (run evs)"
  by (induction evs rule: rev_induct)
     (simp_all add: run_snoc step_idle_without_worker,
      simp add: run_def new_JobQueue_def idle_without_worker_def)

lemma processNext_addrs_ok: "addrs_ok s \<Longrightarrow> addrs_ok (processNext now s)"
proof (rule processNext_rule [where P = addrs_ok])
  fix s :: "('d, 'r) JobQueue" and jobId rest a w now
  assume "addrs_ok s" "map_of (jobs s) jobId = Some a"
  then have "a < length (heap s)"
    by (auto simp: addrs_ok_def list_all_iff dest!: map_of_SomeD)
  then show "addrs_ok (start_job now a (s\<lparr>queue := rest, processing := True\<rparr>))"
    using \<open>addrs_ok s\<close> by (simp add: addrs_ok_def start_job_def)
qed (simp_all add: addrs_ok_def)

lemma set_AList_update: "set (AList.update k v xs) \<subseteq> insert (k, v) (set xs)"
  by (induction xs) auto

lemma step_addrs_ok: "addrs_ok s \<Longrightarrow> addrs_ok (step s e)"
proof (cases e)
  case (AddJob ty d now sfx)
  assume a: "addrs_ok s"
  have "list_all (\<lambda>(jobId, a). a < Suc (length (heap s)))
               (AList.update (make_id ty now sfx) (length (heap s)) (jobs s))"
    using a set_AList_update [of "make_id ty now sfx" "length (heap s)" "jobs s"]
    by (fastforce simp: addrs_ok_def list_all_iff)
  moreover have "list_all (\<lambda>n. note_addr n < Suc (length (heap s))) (emitted s)"
    "list_all (\<lambda>a. a < Suc (length (heap s))) (inflight s)"
    using a by (auto simp: addrs_ok_def list_all_iff less_SucI)
  ultimately have "addrs_ok (enqueue ty d now sfx s)"
    using a by (simp add: addrs_ok_def enqueue_def Let_def distinct_update)
  then show ?thesis using AddJob by (simp add: addJob_def processNext_addrs_ok)
next
  case (Settle a out now)
  assume a: "addrs_ok s"
  have n: "list_all (\<lambda>n. note_addr n < length (heap s)) (outcome_notes a out)"
    if "a \<in> set (inflight s)"
    using that a outcome_notes_no_start(3) [of a out] by (auto simp: addrs_ok_def list_all_iff)
  have "addrs_ok ((record_outcome a out now s)\<lparr>processing := False, inflight := remove1 a (inflight s)\<rparr>)"
    "addrs_ok ((record_outcome a out now s)\<lparr>inflight := remove1 a (inflight s)\<rparr>)"
    if "a \<in> set (inflight s)"
    using a n [OF that] by (auto simp: addrs_ok_def list_all_iff dest: notin_set_remove1)
  then show ?thesis using a Settle by (simp add: settle_def processNext_addrs_ok)
qed (auto simp: addrs_ok_def setWorker_def updateProgress_def cleanupOldJobs_def list_all_iff
               distinct_map_filter split: option.splits dest: map_of_SomeD)

lemma run_addrs_ok: "addrs_ok (run evs)"
  by (induction evs rule: rev_induct)
     (simp_all add: run_snoc step_addrs_ok, simp add: run_def new_JobQueue_def addrs_ok_def)


lemma progress_update_absorb [simp]:
  "(h[b := (h ! b)\<lparr>progress := p\<rparr>] ! a)\<lparr>progress := q\<rparr> = (h ! a)\<lparr>progress := q\<rparr>"
  by (cases "b = a"; cases "b < length h") (simp_all add: list_update_beyond)

lemma processNext_retired:
  fixes s :: "('d, 'r) JobQueue"
  shows "retired j c a s \<Longrightarrow> retired j c a (processNext now s)"
proof (rule processNext_rule [where P = "retired j c a"])
  fix s :: "('d, 'r) JobQueue" and jobId rest b w now
  assume sp: "retired j c a s" and q: "queue s = jobId # rest"
    and m: "map_of (jobs s) jobId = Some b"
  from sp q m have "b \<noteq> a" by (auto simp: retired_def unreachable_def)
  then show "retired j c a (start_job now b (s\<lparr>queue := rest, processing := True\<rparr>))"
    using sp q by (simp add: retired_def unreachable_def start_job_def)
qed (auto simp: retired_def unreachable_def)

lemma step_retired:
  assumes ok: "addrs_ok s"
  shows "retired j c a s \<Longrightarrow> retired j c a (step s e)"
proof (cases e)
  case (AddJob ty d now sfx)
  assume sp: "retired j c a s"
  have "map_of (AList.update k (length (heap s)) (jobs s)) jobId \<noteq> Some a"
    if "map_of (jobs s) jobId \<noteq> Some a" for k jobId
    using that sp by (auto simp: update_conv' retired_def)
  moreover have "map_of (AList.update k (length (heap s)) (jobs s)) k \<noteq> Some a" for k
    using sp by (auto simp: update_conv' retired_def)
  ultimately have "retired j c a (enqueue ty d now sfx s)"
    using sp by (simp add: retired_def unreachable_def enqueue_def Let_def nth_append list_all_iff)
  then show ?thesis using AddJob by (simp add: addJob_def processNext_retired)
next
  case (Settle b out now)
  assume sp: "retired j c a s"
  have "retired j c a ((record_outcome b out now s)\<lparr>processing := False, inflight := remove1 b (inflight s)\<rparr>)"
    "retired j c a ((record_outcome b out now s)\<lparr>inflight := remove1 b (inflight s)\<rparr>)"
    if "b \<in> set (inflight s)"
  proof -
    from that sp have "b \<noteq> a" by (auto simp: retired_def unreachable_def)
    then show "retired j c a ((record_outcome b out now s)\<lparr>processing := False, inflight := remove1 b (inflight s)\<rparr>)"
      "retired j c a ((record_outcome b out now s)\<lparr>inflight := remove1 b (inflight s)\<rparr>)"
      using sp
      by (auto simp: retired_def unreachable_def nth_outcome_update count_list_0_iff
               dest: notin_set_remove1)
  qed
  then show ?thesis using sp Settle by (simp add: settle_def processNext_retired)
next
  case (CleanupOldJobs now)
  assume sp: "retired j c a s"
  have "map_of (filter P (jobs s)) jobId \<noteq> Some a" if "map_of (jobs s) jobId \<noteq> Some a"
    for P jobId
  proof
    assume "map_of (filter P (jobs s)) jobId = Some a"
    then have "(jobId, a) \<in> set (jobs s)" by (rule map_of_filter_cases)
    then have "map_of (jobs s) jobId = Some a"
      using ok by (simp add: addrs_ok_def)
    then show False using that by simp
  qed
  then show ?thesis using sp CleanupOldJobs
    by (simp add: retired_def unreachable_def cleanupOldJobs_def list_all_iff)
next
  case (UpdateProgress jobId p)
  assume sp: "retired j c a s"
  then show ?thesis using UpdateProgress
    by (auto simp: retired_def unreachable_def updateProgress_def split: option.splits)
qed (auto simp: retired_def unreachable_def setWorker_def)

lemma retired_status: "retired j c a s \<Longrightarrow> status (heap s ! a) = status j"
  by (auto simp: retired_def dest: arg_cong [where f = status])

lemma step_keeps_entry:
  assumes ok: "addrs_ok s" and sp: "retired j c a s" and st: "status j = Pending"
    and m: "map_of (jobs s) jobId = Some a"
    and e: "jobId \<notin> set (ids_of [e])"
  shows "map_of (jobs (step s e)) jobId = Some a"
proof (cases e)
  case (AddJob ty d now sfx)
  then show ?thesis using m e by (simp add: addJob_def enqueue_def Let_def update_conv')
next
  case (CleanupOldJobs now)
  have "\<not> expired now (heap s ! a)"
    using retired_status [OF sp] st by (simp add: expired_def)
  then show ?thesis using CleanupOldJobs m
    by (simp add: cleanupOldJobs_def map_of_filter_keep)
next
  case (Settle b out now)
  then show ?thesis using m by (simp add: settle_def)
qed (use m in \<open>auto simp: setWorker_def updateProgress_def split: option.splits\<close>)

lemma ids_of_append: "ids_of (xs @ ys) = ids_of xs @ ids_of ys"
  by (induction xs rule: ids_of.induct) simp_all

lemma foldl_retired:
  "addrs_ok s \<Longrightarrow> retired j c a s \<Longrightarrow>
     addrs_ok (foldl step s evs) \<and> retired j c a (foldl step s evs)"
  by (induction evs arbitrary: s) (simp_all add: step_addrs_ok step_retired)

lemma foldl_keeps_entry:
  "addrs_ok s \<Longrightarrow> retired j c a s \<Longrightarrow> status j = Pending \<Longrightarrow>
     map_of (jobs s) jobId = Some a \<Longrightarrow>
     jobId \<notin> set (ids_of evs) \<Longrightarrow> map_of (jobs (foldl step s evs)) jobId = Some a"
proof (induction evs arbitrary: s)
  case Nil
  then show ?case by simp
next
  case (Cons e evs)
  from Cons.prems(5) have e: "jobId \<notin> set (ids_of [e])" and r: "jobId \<notin> set (ids_of evs)"
    using ids_of_append [of "[e]" evs] by auto
  show ?case
    using Cons.IH [OF step_addrs_ok [OF Cons.prems(1)]
        step_retired [OF Cons.prems(1,2)] Cons.prems(3)
        step_keeps_entry [OF Cons.prems(1,2,3,4) e] r]
    by simp
qed

lemma addJob_without_worker:
  assumes "worker s = None" "queue s = []" "\<not> processing s"
  shows "snd (addJob ty d now sfx s) = (enqueue ty d now sfx s)\<lparr>queue := [], processing := False\<rparr>"
proof -
  let ?t = "enqueue ty d now sfx s"
  have t: "queue ?t = [make_id ty now sfx]" "\<not> processing ?t" "worker ?t = None"
    using assms by (simp_all add: enqueue_def Let_def)
  have "processNext now ?t = ?t\<lparr>queue := [], processing := False\<rparr>"
    using t by (subst processNext.simps) (simp add: processNext_idle split: option.splits)
  then show ?thesis by (simp add: addJob_def)
qed

text \<open>
  C9. A job enqueued while no worker is registered reaches the head of the wait-list at once:
  its id is taken off the wait-list and the job object stays \<open>pending\<close>. Whatever happens
  afterwards (a worker being registered, further jobs, sweeps) the job object is still
  \<open>pending\<close>, is never in flight and is never started, and as long as its id is not generated
  again its entry stays in \<open>jobs\<close>: no sweep removes it.
\<close>

theorem job_without_worker:
  fixes evs0 evs :: "('d, 'r) event list"
  assumes "worker (run evs0) = None"
  shows "let a = length (heap (run evs0));
             jobId = make_id ty now sfx;
             s1 = run (evs0 @ [AddJob ty d now sfx]);
             s2 = run (evs0 @ AddJob ty d now sfx # evs)
         in jobId \<notin> set (queue s1) \<and> map_of (jobs s1) jobId = Some a \<and>
            status (heap s1 ! a) = Pending \<and>
            status (heap s2 ! a) = Pending \<and> a \<notin> set (inflight s2) \<and>
            JobStarted a \<notin> set (emitted s2) \<and>
            (jobId \<notin> set (ids_of evs) \<longrightarrow> map_of (jobs s2) jobId = Some a)"
proof -
  let ?s = "run evs0" and ?a = "length (heap (run evs0))"
  let ?s1 = "step ?s (AddJob ty d now sfx)"
  have ok: "addrs_ok ?s" by (rule run_addrs_ok)
  have idle: "queue ?s = []" "\<not> processing ?s"
    using run_idle_without_worker [of evs0] assms by (auto simp: idle_without_worker_def)
  have s1: "?s1 = (enqueue ty d now sfx ?s)\<lparr>queue := [], processing := False\<rparr>"
    using addJob_without_worker [OF assms idle] by simp
  have q1: "queue ?s1 = []" and m1: "map_of (jobs ?s1) (make_id ty now sfx) = Some ?a"
    and st1: "status (heap ?s1 ! ?a) = Pending"
    unfolding s1 by (simp_all add: enqueue_def Let_def update_conv')
  have "JobStarted ?a \<notin> set (emitted ?s)" "?a \<notin> set (inflight ?s)"
    using ok by (auto simp: addrs_ok_def list_all_iff)
  then have sp1: "retired (heap ?s1 ! ?a) 0 ?a ?s1"
    unfolding s1 by (simp add: retired_def unreachable_def enqueue_def Let_def)
  have ok1: "addrs_ok ?s1" using ok by (rule step_addrs_ok)
  have r1: "run (evs0 @ [AddJob ty d now sfx]) = ?s1" by (simp add: run_def)
  have r2: "run (evs0 @ AddJob ty d now sfx # evs) = foldl step ?s1 evs" by (simp add: run_def)
  have sp2: "retired (heap ?s1 ! ?a) 0 ?a (foldl step ?s1 evs)"
    using foldl_retired [OF ok1 sp1] by simp
  have m2: "map_of (jobs (foldl step ?s1 evs)) (make_id ty now sfx) = Some ?a"
    if "make_id ty now sfx \<notin> set (ids_of evs)"
    using foldl_keeps_entry [OF ok1 sp1 st1 m1 that] .
  have "a' \<notin> set (inflight t) \<and> JobStarted a' \<notin> set (emitted t)"
    if "retired j 0 a' t" for j a' and t :: "('d, 'r) JobQueue"
    using that by (simp add: retired_def unreachable_def count_list_0_iff)
  from this [OF sp2] retired_status [OF sp2] st1 q1 m1 m2
  show ?thesis
    unfolding Let_def r1 r2 by simp
qed

lemma ex_late_worker_eval:
  "worker (run ([] :: (unit, unit) event list)) = None"
  "length (heap (run ([] :: (unit, unit) event list))) = 0"
  "make_id FetchCommits 5 ''a'' \<notin> set (ids_of ex_late_worker)"
  "inflight (run ([] @ AddJob FetchCommits () 5 ''a'' # ex_late_worker)) = [1]"
  by code_simp+

theorem job_without_worker_witness:
  "worker (run ([] :: (unit, unit) event list)) = None \<and>
   make_id FetchCommits 5 ''a'' \<notin> set (ids_of ex_late_worker) \<and>
   inflight (run ([] @ AddJob FetchCommits () 5 ''a'' # ex_late_worker)) = [1] \<and>
   status (heap (run ([] @ AddJob FetchCommits () 5 ''a'' # ex_late_worker)) ! 0) = Pending \<and>
   map_of (jobs (run ([] @ AddJob FetchCommits () 5 ''a'' # ex_late_worker)))
     (make_id FetchCommits 5 ''a'') = Some 0"
  using job_without_worker [of "[]" FetchCommits 5 "''a''" "()" ex_late_worker]
        ex_late_worker_eval
  by (simp add: Let_def)

subsection \<open>Dispatch order and failure\<close>

lemma started_of_append [simp]: "started_of (xs @ ys) = started_of xs @ started_of ys"
  by (induction xs rule: started_of.induct) simp_all

lemma settled_of_append [simp]: "settled_of (xs @ ys) = settled_of xs @ settled_of ys"
  by (induction xs rule: settled_of.induct) simp_all

lemma started_of_iff: "a \<in> set (started_of ns) \<longleftrightarrow> JobStarted a \<in> set ns"
  by (induction ns rule: started_of.induct) auto

lemma settled_of_iff:
  "a \<in> set (settled_of ns) \<longleftrightarrow> JobCompleted a \<in> set ns \<or> JobFailed a \<in> set ns"
  by (induction ns rule: settled_of.induct) auto

lemma snoc_decompose:
  "ns @ [n] = xs @ m # ys \<longleftrightarrow>
     (ys = [] \<and> xs = ns \<and> m = n) \<or> (\<exists>ys'. ys = ys' @ [n] \<and> ns = xs @ m # ys')"
  by (cases ys rule: rev_cases) auto

lemma fifo_log_snoc:
  "fifo_log (ns @ [n]) \<longleftrightarrow>
     fifo_log ns \<and>
     (\<forall>b. n = JobStarted b \<longrightarrow> (\<forall>a \<in> set (started_of ns). a < b \<and> a \<in> set (settled_of ns)))"
  unfolding fifo_log_def snoc_decompose by blast

lemma settles_follow_snoc:
  "settles_follow (ns @ [n]) \<longleftrightarrow>
     settles_follow ns \<and> (\<forall>a \<in> set (settled_of [n]). a \<in> set (started_of ns))"
  unfolding settles_follow_def snoc_decompose by blast


lemma fifo_head:
  assumes "fifo_inv s" "queue s = jobId # rest"
  shows "served s < length (heap s)" "job_id (heap s ! served s) = jobId"
    "drop (Suc (served s)) (map job_id (heap s)) = rest"
    "length (heap s) - length rest = Suc (served s)"
    "map_of (jobs s) jobId = Some (served s)"
proof -
  from assms have d: "drop (served s) (map job_id (heap s)) = jobId # rest"
    and le: "length (queue s) \<le> length (heap s)"
    by (simp_all add: fifo_inv_def)
  from d show lt: "served s < length (heap s)"
    by (metis drop_all length_map list.distinct(1) not_le)
  from d lt show j: "job_id (heap s ! served s) = jobId"
    by (metis Cons_nth_drop_Suc length_map list.inject nth_map)
  from d show "drop (Suc (served s)) (map job_id (heap s)) = rest"
    by (metis drop_Suc list.sel(3) tl_drop)
  from le assms(2) show "length (heap s) - length rest = Suc (served s)"
    by (simp add: served_def)
  from assms(1) lt j show "map_of (jobs s) jobId = Some (served s)"
    by (auto simp: fifo_inv_def)
qed

lemma fifo_inv_skip:
  assumes inv: "fifo_inv s" and np: "\<not> processing s" and q: "queue s = jobId # rest"
  shows "fifo_inv (s\<lparr>queue := rest, processing := False\<rparr>)"
proof -
  note h = fifo_head [OF inv q]
  have sv: "served (s\<lparr>queue := rest, processing := False\<rparr>) = Suc (served s)"
    using h(4) by (simp add: served_def)
  have fl: "flight_inv (s\<lparr>queue := rest, processing := False\<rparr>)"
    "caught_up (s\<lparr>queue := rest, processing := False\<rparr>)"
    using inv np by (auto simp: fifo_inv_def flight_inv_def caught_up_def)
  show ?thesis
    unfolding fifo_inv_def sv
    using inv q h(3) fl by (auto simp: fifo_inv_def less_SucI)
qed

lemma fifo_inv_start:
  assumes inv: "fifo_inv s" and np: "\<not> processing s" and q: "queue s = jobId # rest"
    and m: "map_of (jobs s) jobId = Some a"
  shows "fifo_inv (start_job now a (s\<lparr>queue := rest, processing := True\<rparr>))"
proof -
  note h = fifo_head [OF inv q]
  from h(5) m have a: "a = served s" by simp
  let ?t = "start_job now a (s\<lparr>queue := rest, processing := True\<rparr>)"
  have ids: "map job_id (heap ?t) = map job_id (heap s)"
    by (simp add: start_job_def map_job_id_update)
  have len: "length (heap ?t) = length (heap s)" by (simp add: start_job_def)
  have sv: "served ?t = Suc (served s)"
    using h(4) by (simp add: served_def start_job_def)
  from inv np have nf: "inflight s = []" by (auto simp: fifo_inv_def flight_inv_def)
  have st: "started_of (emitted ?t) = started_of (emitted s) @ [a]"
    "settled_of (emitted ?t) = settled_of (emitted s)" "inflight ?t = [a]"
    "queue ?t = rest" "jobs ?t = jobs s"
    using nf by (simp_all add: start_job_def)
  have sub: "set (started_of (emitted s)) \<subseteq> set (settled_of (emitted s))"
    using inv nf np by (auto simp: fifo_inv_def caught_up_def)
  have fl: "flight_inv ?t" "caught_up ?t"
    using nf sub by (auto simp: flight_inv_def caught_up_def start_job_def)
  have lg: "fifo_log (emitted ?t)" "settles_follow (emitted ?t)"
    using inv sub by (auto simp: start_job_def fifo_log_snoc settles_follow_snoc fifo_inv_def a)
  have rest: "status (heap ?t ! i) = Pending \<and> map_of (jobs s) (job_id (heap ?t ! i)) = Some i"
    if "Suc (served s) \<le> i" "i < length (heap s)" for i
    using that inv by (simp add: start_job_def a fifo_inv_def)
  show ?thesis
    unfolding fifo_inv_def sv ids len st
    using inv h(3) h(4) fl lg sub rest by (auto simp: fifo_inv_def a less_SucI)
qed

lemma processNext_fifo_inv: "fifo_inv s \<Longrightarrow> fifo_inv (processNext now s)"
  by (rule processNext_rule [where P = fifo_inv]) (simp_all add: fifo_inv_skip fifo_inv_start)


lemma fifo_inv_enqueue:
  assumes inv: "fifo_inv s" and fresh: "make_id ty now sfx \<notin> set (map job_id (heap s))"
  shows "fifo_inv (enqueue ty d now sfx s)"
proof -
  let ?t = "enqueue ty d now sfx s" and ?jid = "make_id ty now sfx"
  from inv have le: "length (queue s) \<le> length (heap s)" by (simp add: fifo_inv_def)
  have sv: "served ?t = served s" using le by (simp add: served_def enqueue_def Let_def)
  have svle: "served s \<le> length (heap s)" by (simp add: served_def)
  have len: "length (heap ?t) = Suc (length (heap s))" by (simp add: enqueue_def Let_def)
  have ids: "map job_id (heap ?t) = map job_id (heap s) @ [?jid]"
    by (simp add: enqueue_def Let_def)
  have st: "started_of (emitted ?t) = started_of (emitted s)"
    "settled_of (emitted ?t) = settled_of (emitted s)" "inflight ?t = inflight s"
    "queue ?t = queue s @ [?jid]"
    by (simp_all add: enqueue_def Let_def)
  have lg: "fifo_log (emitted ?t)" "settles_follow (emitted ?t)" "flight_inv ?t" "caught_up ?t"
    using inv
    by (simp_all add: enqueue_def Let_def fifo_log_snoc settles_follow_snoc fifo_inv_def
          flight_inv_def caught_up_def)
  have ne: "?jid \<noteq> []" by (cases ty) (simp_all add: make_id_def)
  have old: "status (heap ?t ! i) = Pending \<and> map_of (jobs ?t) (job_id (heap ?t ! i)) = Some i"
    if "served s \<le> i" "i < Suc (length (heap s))" for i
  proof (cases "i < length (heap s)")
    case True
    then have "job_id (heap s ! i) \<noteq> ?jid" using fresh by (metis length_map nth_map nth_mem)
    then show ?thesis using True that inv
      by (simp add: enqueue_def Let_def nth_append update_conv' fifo_inv_def)
  next
    case False
    with that have "i = length (heap s)" by simp
    then show ?thesis by (simp add: enqueue_def Let_def update_conv')
  qed
  show ?thesis
    unfolding fifo_inv_def sv ids len st
    using inv fresh lg old svle ne by (auto simp: fifo_inv_def)
qed

lemma outcome_notes_log:
  "started_of (outcome_notes a out) = []"
  "settled_of (outcome_notes a out) = (if catch_throws out then [] else [a])"
  by (induction a out rule: outcome_notes.induct) simp_all

lemma fifo_log_no_start:
  "fifo_log ns \<Longrightarrow> started_of ms = [] \<Longrightarrow> fifo_log (ns @ ms)"
proof (induction ms rule: rev_induct)
  case Nil
  then show ?case by simp
next
  case (snoc m ms)
  from snoc.prems(2) have "started_of ms = []" "\<forall>b. m \<noteq> JobStarted b" by auto
  with snoc.IH snoc.prems(1) show ?case
    using fifo_log_snoc [of "ns @ ms" m] by simp
qed

lemma settles_follow_outcome:
  "settles_follow ns \<Longrightarrow> a \<in> set (started_of ns) \<Longrightarrow>
     settles_follow (ns @ outcome_notes a out)"
  by (induction a out rule: outcome_notes.induct) (simp_all add: settles_follow_snoc)

lemma fifo_inv_record:
  assumes inv: "fifo_inv s" and a: "a \<in> set (inflight s)"
  shows "\<not> catch_throws out \<Longrightarrow>
           fifo_inv ((record_outcome a out now s)\<lparr>processing := False,
             inflight := remove1 a (inflight s)\<rparr>)"
    and "catch_throws out \<Longrightarrow>
           fifo_inv ((record_outcome a out now s)\<lparr>inflight := remove1 a (inflight s)\<rparr>)"
proof -
  let ?t = "(record_outcome a out now s)\<lparr>processing := False, inflight := remove1 a (inflight s)\<rparr>"
  let ?u = "(record_outcome a out now s)\<lparr>inflight := remove1 a (inflight s)\<rparr>"
  from inv a have fa: "inflight s = [a]" "processing s" by (auto simp: fifo_inv_def flight_inv_def)
  from inv a have lt: "a < served s" and sa: "a \<in> set (started_of (emitted s))"
    by (simp_all add: fifo_inv_def)
  have sv: "served ?t = served s" "served ?u = served s" by (simp_all add: served_def)
  have len: "length (heap ?t) = length (heap s)" "length (heap ?u) = length (heap s)"
    by simp_all
  have ids: "map job_id (heap ?t) = map job_id (heap s)"
    "map job_id (heap ?u) = map job_id (heap s)" by simp_all
  have st: "started_of (emitted ?t) = started_of (emitted s)"
    "started_of (emitted ?u) = started_of (emitted s)"
    "inflight ?t = []" "inflight ?u = []"
    "queue ?t = queue s" "jobs ?t = jobs s" "queue ?u = queue s" "jobs ?u = jobs s"
    using fa by (simp_all add: outcome_notes_log)
  have lg: "fifo_log (emitted ?t)" "settles_follow (emitted ?t)" "flight_inv ?t"
    "fifo_log (emitted ?u)" "settles_follow (emitted ?u)" "flight_inv ?u"
    using inv sa
    by (simp_all add: fifo_log_no_start outcome_notes_log settles_follow_outcome fifo_inv_def
          flight_inv_def st)
  have cu: "caught_up ?t" if "\<not> catch_throws out"
    using inv fa that by (auto simp: caught_up_def fifo_inv_def outcome_notes_log)
  have cu': "caught_up ?u"
    using fa by (simp add: caught_up_def)
  have old: "status (heap (record_outcome a out now s) ! i) = Pending \<and>
             map_of (jobs s) (job_id (heap (record_outcome a out now s) ! i)) = Some i"
    if "served s \<le> i" "i < length (heap s)" for i
  proof -
    from that lt have "a \<noteq> i" by simp
    then show ?thesis using that inv by (simp add: nth_outcome_update fifo_inv_def)
  qed
  show "fifo_inv ?t" if "\<not> catch_throws out"
    unfolding fifo_inv_def sv ids len st
    using inv lg cu [OF that] old by (auto simp: fifo_inv_def)
  show "fifo_inv ?u" if "catch_throws out"
    unfolding fifo_inv_def sv ids len st
    using inv lg cu' old by (auto simp: fifo_inv_def)
qed

lemma step_fifo_inv:
  assumes inv: "fifo_inv s" and fresh: "distinct (map job_id (heap s) @ ids_of [e])"
  shows "fifo_inv (step s e)"
proof (cases e)
  case (SetWorker w)
  then show ?thesis using inv
    by (simp add: setWorker_def fifo_inv_def served_def flight_inv_def caught_up_def)
next
  case (AddJob ty d now sfx)
  with fresh have "make_id ty now sfx \<notin> set (map job_id (heap s))" by auto
  then show ?thesis using AddJob inv
    by (simp add: addJob_def fifo_inv_enqueue processNext_fifo_inv)
next
  case (UpdateProgress jobId p)
  show ?thesis
  proof (cases "map_of (jobs s) jobId")
    case None
    then show ?thesis using UpdateProgress inv by (simp add: updateProgress_def)
  next
    case (Some a)
    let ?t = "updateProgress jobId p s"
    have t: "?t = s\<lparr>heap := (heap s)[a := (heap s ! a)\<lparr>progress := Some p\<rparr>],
                    emitted := emitted s @ [JobProgress a]\<rparr>"
      using Some by (simp add: updateProgress_def)
    have sv: "served ?t = served s" by (simp add: t served_def)
    have ids: "map job_id (heap ?t) = map job_id (heap s)" by (simp add: t map_job_id_update)
    have len: "length (heap ?t) = length (heap s)" by (simp add: t)
    have st: "started_of (emitted ?t) = started_of (emitted s)"
      "settled_of (emitted ?t) = settled_of (emitted s)" "inflight ?t = inflight s"
      "queue ?t = queue s" "jobs ?t = jobs s"
      by (simp_all add: t)
    have lg: "fifo_log (emitted ?t)" "settles_follow (emitted ?t)" "flight_inv ?t" "caught_up ?t"
      using inv
      by (simp_all add: t fifo_log_snoc settles_follow_snoc fifo_inv_def flight_inv_def
            caught_up_def)
    have old: "status (heap ?t ! i) = status (heap s ! i) \<and> job_id (heap ?t ! i) = job_id (heap s ! i)" for i
      by (cases "a = i"; cases "a < length (heap s)") (simp_all add: t list_update_beyond)
    have "fifo_inv ?t"
      unfolding fifo_inv_def sv ids len st
      using inv lg by (auto simp: fifo_inv_def old)
    then show ?thesis using UpdateProgress by simp
  qed
next
  case (Settle a out now)
  then show ?thesis using inv
    by (simp add: settle_def fifo_inv_record processNext_fifo_inv)
next
  case (CleanupOldJobs now)
  let ?t = "cleanupOldJobs now s"
  have sv: "served ?t = served s" by (simp add: cleanupOldJobs_def served_def)
  have fl: "flight_inv ?t" "caught_up ?t"
    using inv by (simp_all add: cleanupOldJobs_def fifo_inv_def flight_inv_def caught_up_def)
  have old: "map_of (jobs ?t) (job_id (heap s ! i)) = Some i"
    if "served s \<le> i" "i < length (heap s)" for i
  proof -
    from that inv have "status (heap s ! i) = Pending"
      "map_of (jobs s) (job_id (heap s ! i)) = Some i" by (simp_all add: fifo_inv_def)
    then show ?thesis by (simp add: cleanupOldJobs_def map_of_filter_keep expired_def)
  qed
  have "fifo_inv ?t"
    unfolding fifo_inv_def sv
    using inv fl old by (auto simp: fifo_inv_def cleanupOldJobs_def)
  then show ?thesis using CleanupOldJobs by simp
qed

lemma heap_ids_processNext [simp]: "map job_id (heap (processNext now s)) = map job_id (heap s)"
  by (rule processNext_rule [where P = "\<lambda>t. map job_id (heap t) = map job_id (heap s)"])
     (simp_all add: start_job_def map_job_id_update)

lemma heap_ids_step: "map job_id (heap (step s e)) = map job_id (heap s) @ ids_of [e]"
proof (cases e)
  case (AddJob ty d now sfx)
  then show ?thesis by (simp add: addJob_def enqueue_def Let_def)
next
  case (Settle a out now)
  then show ?thesis by (simp add: settle_def)
qed (simp_all add: setWorker_def updateProgress_def cleanupOldJobs_def map_job_id_update
       split: option.splits)

lemma heap_ids_run: "map job_id (heap (run evs)) = ids_of evs"
  by (induction evs rule: rev_induct)
     (simp_all add: run_snoc heap_ids_step ids_of_append, simp add: run_def new_JobQueue_def)

lemma run_fifo_inv: "distinct (ids_of evs) \<Longrightarrow> fifo_inv (run evs)"
proof (induction evs rule: rev_induct)
  case Nil
  show ?case
    by (simp add: run_def new_JobQueue_def fifo_inv_def served_def flight_inv_def fifo_log_def
          settles_follow_def caught_up_def)
next
  case (snoc e evs)
  from snoc.prems have d: "distinct (ids_of evs)" "distinct (map job_id (heap (run evs)) @ ids_of [e])"
    by (simp_all add: ids_of_append heap_ids_run)
  show ?case using step_fifo_inv [OF snoc.IH [OF d(1)] d(2)] by (simp add: run_snoc)
qed


text \<open>Job objects are numbered in enqueue order: the \<open>job-added\<close> notifications of a run carry
  the addresses 0, 1, 2, ... in this order.\<close>

lemma added_of_append [simp]: "added_of (xs @ ys) = added_of xs @ added_of ys"
  by (induction xs rule: added_of.induct) simp_all

lemma added_of_processNext [simp]:
  "added_of (emitted (processNext now s)) = added_of (emitted s)"
  by (rule processNext_rule [where P = "\<lambda>t. added_of (emitted t) = added_of (emitted s)"])
     (simp_all add: start_job_def)

lemma added_of_outcome_notes [simp]: "added_of (outcome_notes a out) = []"
  by (induction a out rule: outcome_notes.induct) simp_all

lemma added_of_step:
  "added_of (emitted (step s e)) = added_of (emitted s) @ map (\<lambda>jobId. length (heap s)) (ids_of [e])"
proof (cases e)
  case (AddJob ty d now sfx)
  then show ?thesis by (simp add: addJob_def enqueue_def Let_def)
next
  case (Settle a out now)
  then show ?thesis by (simp add: settle_def)
qed (simp_all add: setWorker_def updateProgress_def cleanupOldJobs_def split: option.splits)

lemma added_in_order: "added_of (emitted (run evs)) = [0..<length (ids_of evs)]"
proof (induction evs rule: rev_induct)
  case Nil
  show ?case by (simp add: run_def new_JobQueue_def)
next
  case (snoc e evs)
  have "length (heap (run evs)) = length (ids_of evs)"
    using heap_ids_run [of evs] by (metis length_map)
  with snoc have "added_of (emitted (run (evs @ [e])))
      = [0..<length (ids_of evs)] @ map (\<lambda>jobId. length (ids_of evs)) (ids_of [e])"
    by (simp only: run_snoc added_of_step)
  then show ?case by (cases e) (simp_all add: ids_of_append)
qed

text \<open>With a worker registered and distinct ids, no job is taken off the wait-list without
  being started.\<close>

lemma processNext_served_started:
  "fifo_inv s \<and> served_started a s \<Longrightarrow>
     fifo_inv (processNext now s) \<and> served_started a (processNext now s)"
proof (rule processNext_rule [where P = "\<lambda>t. fifo_inv t \<and> served_started a t"])
  fix s :: "('d, 'r) JobQueue" and jobId rest
  assume p: "fifo_inv s \<and> served_started a s" and q: "queue s = jobId # rest"
    and c: "jobId = [] \<or> map_of (jobs s) jobId = None \<or> worker s = None"
  note h = fifo_head [OF conjunct1 [OF p] q]
  from h(1,2) have "jobId \<in> set (map job_id (heap s))" by (metis length_map nth_map nth_mem)
  moreover from p have "[] \<notin> set (map job_id (heap s))" by (simp add: fifo_inv_def)
  ultimately have "jobId \<noteq> []" by metis
  with c h(5) p have False by (simp add: served_started_def)
  then show "fifo_inv (s\<lparr>queue := rest, processing := False\<rparr>) \<and>
             served_started a (s\<lparr>queue := rest, processing := False\<rparr>)" ..
next
  fix s :: "('d, 'r) JobQueue" and jobId rest b w now
  assume p: "fifo_inv s \<and> served_started a s" and np: "\<not> processing s"
    and q: "queue s = jobId # rest" and m: "map_of (jobs s) jobId = Some b"
  note h = fifo_head [OF conjunct1 [OF p] q]
  from h(5) m have b: "b = served s" by simp
  let ?t = "start_job now b (s\<lparr>queue := rest, processing := True\<rparr>)"
  have sv: "served ?t = Suc (served s)" using h(4) by (simp add: served_def start_job_def)
  have "served_started a ?t"
    using p unfolding served_started_def sv
    by (auto simp: start_job_def b less_Suc_eq)
  then show "fifo_inv ?t \<and> served_started a ?t"
    using fifo_inv_start [OF conjunct1 [OF p] np q m] by simp
qed

lemma step_served_started:
  assumes inv: "fifo_inv s" and fresh: "distinct (map job_id (heap s) @ ids_of [e])"
    and ss: "served_started a s"
  shows "served_started a (step s e)"
proof (cases e)
  case (SetWorker w)
  then show ?thesis using ss by (simp add: setWorker_def served_started_def served_def)
next
  case (AddJob ty d now sfx)
  with fresh have f: "make_id ty now sfx \<notin> set (map job_id (heap s))" by auto
  from inv have "length (queue s) \<le> length (heap s)" by (simp add: fifo_inv_def)
  then have "served (enqueue ty d now sfx s) = served s"
    by (simp add: served_def enqueue_def Let_def)
  then have "served_started a (enqueue ty d now sfx s)"
    using ss by (simp add: served_started_def) (simp add: enqueue_def Let_def)
  with fifo_inv_enqueue [OF inv f] show ?thesis
    using AddJob processNext_served_started [of "enqueue ty d now sfx s" a now]
    by (simp add: addJob_def)
next
  case (UpdateProgress jobId p)
  then show ?thesis using ss
    by (auto simp: updateProgress_def served_started_def served_def split: option.splits)
next
  case (Settle b out now)
  show ?thesis
  proof (cases "b \<in> set (inflight s)")
    case False
    then show ?thesis using Settle ss by (simp add: settle_def)
  next
    case True
    let ?t = "(record_outcome b out now s)\<lparr>processing := False, inflight := remove1 b (inflight s)\<rparr>"
    let ?u = "(record_outcome b out now s)\<lparr>inflight := remove1 b (inflight s)\<rparr>"
    have s': "served_started a ?t" "served_started a ?u"
      using ss by (simp_all add: served_started_def served_def outcome_notes_log)
    show ?thesis
    proof (cases "catch_throws out")
      case True
      then show ?thesis using Settle \<open>b \<in> set (inflight s)\<close> s'(2) by (simp add: settle_def)
    next
      case False
      from fifo_inv_record(1) [OF inv True False] s'(1)
      have "served_started a (processNext now ?t)"
        using processNext_served_started [of ?t a now] by simp
      then show ?thesis using Settle True False by (simp add: settle_def)
    qed
  qed
next
  case (CleanupOldJobs now)
  then show ?thesis using ss by (simp add: cleanupOldJobs_def served_started_def served_def)
qed

lemma run_served_started:
  assumes "distinct (ids_of (pre @ post))" "worker (run pre) \<noteq> None"
  shows "served_started (length (ids_of pre)) (run (pre @ post))"
  using assms(1)
proof (induction post rule: rev_induct)
  case Nil
  have "served (run pre) \<le> length (ids_of pre)"
    using heap_ids_run [of pre] by (metis served_def diff_le_self length_map)
  then show ?case using assms(2) by (simp add: served_started_def)
next
  case (snoc e post)
  from snoc.prems have d: "distinct (ids_of (pre @ post))"
    and f: "distinct (map job_id (heap (run (pre @ post))) @ ids_of [e])"
    by (auto simp: ids_of_append heap_ids_run)
  have "run (pre @ post @ [e]) = step (run (pre @ post)) e" by (simp add: run_def)
  then show ?case
    using step_served_started [OF run_fifo_inv [OF d] f snoc.IH [OF d]] by simp
qed

lemma fifo_log_order:
  assumes fl: "fifo_log ns" and sf: "settles_follow ns"
    and ns: "ns = xs @ JobStarted b # ys" and ab: "a < b" and a: "JobStarted a \<in> set ns"
  shows "\<exists>u v n w. xs = u @ JobStarted a # v @ n # w \<and> n \<in> {JobCompleted a, JobFailed a}"
proof -
  have "JobStarted a \<notin> set ys"
  proof
    assume "JobStarted a \<in> set ys"
    then obtain y1 y2 where "ys = y1 @ JobStarted a # y2" by (auto dest: split_list)
    then have "ns = (xs @ JobStarted b # y1) @ JobStarted a # y2" using ns by simp
    with fl have "\<forall>c \<in> set (started_of (xs @ JobStarted b # y1)). c < a"
      unfolding fifo_log_def by blast
    then have "b < a" by simp
    with ab show False by simp
  qed
  with ns ab a have ax: "a \<in> set (started_of xs)" by (auto simp: started_of_iff)
  with fl ns have "a \<in> set (settled_of xs)" unfolding fifo_log_def by blast
  then obtain n where n: "n \<in> set xs" "n \<in> {JobCompleted a, JobFailed a}"
    by (auto simp: settled_of_iff)
  then obtain p w where xs: "xs = p @ n # w" by (auto dest: split_list)
  then have "ns = p @ n # (w @ JobStarted b # ys)" using ns by simp
  with sf have "\<forall>c \<in> set (settled_of [n]). c \<in> set (started_of p)"
    unfolding settles_follow_def by blast
  with n(2) have "JobStarted a \<in> set p" by (auto simp: started_of_iff)
  then obtain u v where "p = u @ JobStarted a # v" by (auto dest: split_list)
  with xs n(2) show ?thesis by auto
qed

text \<open>
  C2 (as amended). Job objects are numbered in enqueue order. In a run in which all generated
  job ids are distinct: the wait-list is always the tail of the sequence of enqueued ids, in
  enqueue order; once a job has been started, no job enqueued before it is still waiting; and
  if a worker was registered when job \<open>a\<close> was enqueued, then whenever a job \<open>b\<close> enqueued after
  it is started, \<open>job-started a\<close> and after it the settling of \<open>a\<close> (\<open>job-completed a\<close> or
  \<open>job-failed a\<close>) have come before \<open>job-started b\<close> in the sequence of notifications.
\<close>

theorem fifo_dispatch:
  fixes evs pre post :: "('d, 'r) event list"
  assumes "distinct (ids_of evs)"
  shows "queue (run evs) = drop (length (ids_of evs) - length (queue (run evs))) (ids_of evs) \<and>
         (a < b \<and> JobStarted b \<in> set (emitted (run evs)) \<longrightarrow>
            ids_of evs ! a \<notin> set (queue (run evs))) \<and>
         (evs = pre @ AddJob ty d now sfx # post \<and> worker (run pre) \<noteq> None \<and>
          emitted (run evs) = xs @ JobStarted b' # ys \<and> length (ids_of pre) < b' \<longrightarrow>
            (\<exists>u v n w. xs = u @ JobStarted (length (ids_of pre)) # v @ n # w \<and>
                       n \<in> {JobCompleted (length (ids_of pre)), JobFailed (length (ids_of pre))}))"
proof (intro conjI impI)
  note inv = run_fifo_inv [OF assms]
  have ids: "map job_id (heap (run evs)) = ids_of evs" by (rule heap_ids_run)
  have len: "length (heap (run evs)) = length (ids_of evs)" using ids by (metis length_map)
  from inv have q: "queue (run evs) = drop (served (run evs)) (ids_of evs)"
    by (simp add: fifo_inv_def ids)
  then show "queue (run evs) = drop (length (ids_of evs) - length (queue (run evs))) (ids_of evs)"
    by (simp add: served_def len)
  {
    assume h: "a < b \<and> JobStarted b \<in> set (emitted (run evs))"
    with inv have "b < served (run evs)" by (simp add: fifo_inv_def started_of_iff)
    with h have lt: "a < served (run evs)" by simp
    show "ids_of evs ! a \<notin> set (queue (run evs))"
    proof
      assume "ids_of evs ! a \<in> set (queue (run evs))"
      then obtain i where i: "i < length (ids_of evs) - served (run evs)"
        "drop (served (run evs)) (ids_of evs) ! i = ids_of evs ! a"
        unfolding q by (auto simp: in_set_conv_nth)
      then have "ids_of evs ! (served (run evs) + i) = ids_of evs ! a" by simp
      with assms lt i(1) have "served (run evs) + i = a"
        by (simp add: nth_eq_iff_index_eq)
      with lt show False by simp
    qed
  }
  {
    assume h: "evs = pre @ AddJob ty d now sfx # post \<and> worker (run pre) \<noteq> None \<and>
          emitted (run evs) = xs @ JobStarted b' # ys \<and> length (ids_of pre) < b'"
    let ?a = "length (ids_of pre)"
    from h have e: "evs = pre @ AddJob ty d now sfx # post" and w: "worker (run pre) \<noteq> None"
      and em: "emitted (run evs) = xs @ JobStarted b' # ys" and ab: "?a < b'"
      by blast+
    have ss: "served_started ?a (run evs)"
      unfolding e by (rule run_served_started [OF assms [unfolded e] w])
    have "JobStarted b' \<in> set (emitted (run evs))" unfolding em by simp
    then have "b' \<in> set (started_of (emitted (run evs)))" by (simp add: started_of_iff)
    with inv have "b' < served (run evs)" unfolding fifo_inv_def by blast
    with ab have "?a < served (run evs)" by simp
    with ss have st: "JobStarted ?a \<in> set (emitted (run evs))"
      by (simp add: served_started_def started_of_iff)
    from inv have lg: "fifo_log (emitted (run evs))" "settles_follow (emitted (run evs))"
      by (simp_all add: fifo_inv_def)
    show "\<exists>u v n w. xs = u @ JobStarted ?a # v @ n # w \<and>
                       n \<in> {JobCompleted ?a, JobFailed ?a}"
      by (rule fifo_log_order [OF lg em ab st])
  }
qed

lemma ex_two_jobs_eval:
  "distinct (ids_of ex_two_jobs)"
  "ex_two_jobs = [SetWorker 0] @ AddJob FetchCommits () 5 ''a'' #
       [AddJob FetchAll () 6 ''b'', Settle 0 (Resolved ()) 7]"
  "worker (run ([SetWorker 0] :: (unit, unit) event list)) \<noteq> None"
  "emitted (run ex_two_jobs) =
     [JobAdded 0, JobStarted 0, JobAdded 1, JobCompleted 0] @ JobStarted 1 # []"
  "length (ids_of ([SetWorker 0] :: (unit, unit) event list)) = 0"
  "JobStarted 1 \<in> set (emitted (run ex_two_jobs))"
  "queue (run ex_two_jobs) = []"
  by code_simp+

theorem fifo_dispatch_witness:
  "distinct (ids_of ex_two_jobs) \<and>
   worker (run ([SetWorker 0] :: (unit, unit) event list)) \<noteq> None \<and>
   emitted (run ex_two_jobs) =
     [JobAdded 0, JobStarted 0, JobAdded 1, JobCompleted 0] @ JobStarted 1 # [] \<and>
   (0::nat) < 1 \<and> JobStarted 1 \<in> set (emitted (run ex_two_jobs)) \<and>
   ids_of ex_two_jobs ! 0 \<notin> set (queue (run ex_two_jobs)) \<and>
   (\<exists>u v n w. [JobAdded 0, JobStarted 0, JobAdded 1, JobCompleted 0] = u @ JobStarted 0 # v @ n # w \<and>
      n \<in> {JobCompleted 0, JobFailed 0})"
proof -
  note t = fifo_dispatch [OF ex_two_jobs_eval(1), where a = 0 and b = 1
      and pre = "[SetWorker 0]" and ty = FetchCommits and d = "()" and now = 5 and sfx = "''a''"
      and post = "[AddJob FetchAll () 6 ''b'', Settle 0 (Resolved ()) 7]"
      and xs = "[JobAdded 0, JobStarted 0, JobAdded 1, JobCompleted 0]" and b' = 1 and ys = "[]"]
  have a: "ids_of ex_two_jobs ! 0 \<notin> set (queue (run ex_two_jobs))"
    using t ex_two_jobs_eval(6) by blast
  have b: "\<exists>u v n w. [JobAdded 0, JobStarted 0, JobAdded 1, JobCompleted 0]
                = u @ JobStarted 0 # v @ n # w \<and> n \<in> {JobCompleted 0, JobFailed 0}"
    using t ex_two_jobs_eval(2,3,4,5) by simp
  show ?thesis using a b ex_two_jobs_eval by simp
qed

text \<open>
  The claim as stated fails in two ways. When the first job is enqueued before a worker is
  registered and the second after, the second is started while the first, still pending,
  never is. And when a fourth job is given the id of the second, the fourth is started before
  the third, which was enqueued before it under another id and with the worker registered.
\<close>

theorem fifo_dispatch_counterexample:
  "distinct (ids_of ex_worker_late) \<and>
   emitted (run ex_worker_late) = [JobAdded 0, JobAdded 1, JobStarted 1] \<and>
   status (heap (run ex_worker_late) ! 0) = Pending \<and>
   status (heap (run ex_worker_late) ! 1) = Processing \<and>
   job_id (heap (run ex_collide) ! 2) \<noteq> job_id (heap (run ex_collide) ! 3) \<and>
   emitted (run ex_collide) =
     [JobAdded 0, JobStarted 0, JobAdded 1, JobAdded 2, JobAdded 3, JobCompleted 0, JobStarted 3] \<and>
   status (heap (run ex_collide) ! 2) = Pending"
  by code_simp









section \<open>Properties of the fetcher\<close>

subsection \<open>The transactional write\<close>

lemma insert_files_apply:
  "insert_files eng full fs db = apply_stmts eng (map (\<lambda>f. InsertFile full (file_row f)) fs) db"
  by (induction fs arbitrary: db) (simp_all split: sum.splits)

lemma save_body_apply:
  "save_body eng now c aiSummary db = apply_stmts eng (commit_stmts now c aiSummary) db"
  by (simp add: save_body_def commit_stmts_def insert_files_apply split: sum.splits)

lemma saveCommitToDB_cases:
  "saveCommitToDB eng now c aiSummary db =
     (if prepare eng InsertCommitSql \<noteq> None
      then (Inl (Thrown (the (prepare eng InsertCommitSql))), db)
      else if prepare eng InsertFileSql \<noteq> None
      then (Inl (Thrown (the (prepare eng InsertFileSql))), db)
      else case apply_stmts eng (commit_stmts now c aiSummary) db of
             Inl e \<Rightarrow> (Inr False, db)
           | Inr db' \<Rightarrow> (Inr True, db'))"
  by (auto simp: saveCommitToDB_def transaction_def save_body_apply split: option.splits sum.splits)

text \<open>
  C6. \<open>saveCommitToDB\<close> returns \<open>true\<close> exactly when both statements prepare and every write of
  the commit (its row, then each file row) succeeds in order, and the database is then the
  result of all of them; in every other case (a failed write anywhere in the transaction, or a
  failed preparation) the database is what it was before the call.
\<close>

theorem saveCommitToDB_atomic:
  fixes eng :: "'db engine"
  shows "(saveCommitToDB eng now c aiSummary db = (Inr True, db') \<longleftrightarrow>
            prepare eng InsertCommitSql = None \<and> prepare eng InsertFileSql = None \<and>
            apply_stmts eng (commit_stmts now c aiSummary) db = Inr db') \<and>
         (fst (saveCommitToDB eng now c aiSummary db) \<noteq> Inr True \<longrightarrow>
            snd (saveCommitToDB eng now c aiSummary db) = db)"
  by (auto simp: saveCommitToDB_cases split: sum.splits)

lemma ex_save_eval:
  "saveCommitToDB (log_engine is_file_insert) 9 ex_commit None [] = (Inr False, [])"
  "run_stmt (log_engine is_file_insert) (InsertCommit ex_commit None None) []
     = Inr [InsertCommit ex_commit None None]"
  "saveCommitToDB (log_engine no_fault) 9 ex_commit None []
     = (Inr True, commit_stmts 9 ex_commit None)"
  by code_simp+

theorem saveCommitToDB_atomic_witness:
  "fst (saveCommitToDB (log_engine is_file_insert) 9 ex_commit None []) \<noteq> Inr True \<and>
   run_stmt (log_engine is_file_insert) (InsertCommit ex_commit None None) []
     = Inr [InsertCommit ex_commit None None] \<and>
   snd (saveCommitToDB (log_engine is_file_insert) 9 ex_commit None []) = [] \<and>
   saveCommitToDB (log_engine no_fault) 9 ex_commit None []
     = (Inr True, commit_stmts 9 ex_commit None) \<and>
   apply_stmts (log_engine no_fault) (commit_stmts 9 ex_commit None) []
     = Inr (commit_stmts 9 ex_commit None)"
  using saveCommitToDB_atomic [of "log_engine is_file_insert" 9 ex_commit None "[]"]
        saveCommitToDB_atomic [of "log_engine no_fault" 9 ex_commit None "[]"
          "commit_stmts 9 ex_commit None"]
        ex_save_eval
  by simp


subsection \<open>Annotation\<close>

lemma analyze_cases:
  "analyzeCommitWithAI client c =
     (case client of
        None \<Rightarrow> Inr None
      | Some chat \<Rightarrow>
          (case chat (build_prompt c) of
             Inl (Thrown m) \<Rightarrow> Inr None
           | Inl ThrownNull \<Rightarrow> Inl type_error
           | Inr response \<Rightarrow>
               Inr (case first_content response of Text t \<Rightarrow> Some (trim t) | _ \<Rightarrow> None)))"
  by (simp add: analyzeCommitWithAI_def analyze_body_def
        split: option.splits sum.splits thrown.splits content.splits)

lemma analyze_js_cases:
  "analyzeCommitWithAI_js client c =
     (case client of
        None \<Rightarrow> Inr None
      | Some chat \<Rightarrow>
          (case chat (build_prompt c) of
             Inl (Thrown m) \<Rightarrow> Inr None
           | Inl ThrownNull \<Rightarrow> Inl type_error
           | Inr response \<Rightarrow>
               Inr (case first_content response of Text t \<Rightarrow> Some (trim t) | _ \<Rightarrow> None)))"
proof (cases client)
  case None
  then show ?thesis by (simp add: analyzeCommitWithAI_js_def)
next
  case (Some chat)
  show ?thesis
  proof (cases "chat (build_prompt c)")
    case (Inl e)
    then show ?thesis using Some
      by (simp add: analyzeCommitWithAI_js_def analyze_body_js_def split: thrown.splits)
  next
    case (Inr response)
    have "analyze_body_js chat c = Inl type_error \<and> (\<forall>t. first_content response \<noteq> Text t) \<or>
          (\<exists>t. analyze_body_js chat c = Inr (Some (trim t)) \<and> first_content response = Text t)"
      using Inr
      by (cases response rule: first_content.cases)
         (auto simp: analyze_body_js_def split: content.splits)
    then show ?thesis using Some Inr
      by (auto simp: analyzeCommitWithAI_js_def type_error_def split: content.splits)
  qed
qed

text \<open>
  C7 (as amended). \<open>analyzeCommitWithAI\<close>, in fetcher.ts and in index.js alike, throws exactly
  when the call of the client rejects with \<open>null\<close> or \<open>undefined\<close>, and what it throws then is the
  \<open>TypeError\<close> of its own \<open>catch\<close>. Otherwise it returns \<open>null\<close> when no client is configured,
  when the call rejects with an error object, and when the reply carries no string content;
  when the content is a string it returns that string trimmed, whatever it is.
\<close>

theorem analyze_never_throws:
  "analyzeCommitWithAI_js client c = analyzeCommitWithAI client c \<and>
   ((\<exists>r. analyzeCommitWithAI client c = Inr r) \<longleftrightarrow>
      \<not> (\<exists>chat. client = Some chat \<and> chat (build_prompt c) = Inl ThrownNull)) \<and>
   analyzeCommitWithAI client c =
     (case client of
        None \<Rightarrow> Inr None
      | Some chat \<Rightarrow>
          (case chat (build_prompt c) of
             Inl (Thrown m) \<Rightarrow> Inr None
           | Inl ThrownNull \<Rightarrow> Inl type_error
           | Inr response \<Rightarrow>
               Inr (case first_content response of Text t \<Rightarrow> Some (trim t) | _ \<Rightarrow> None)))"
proof (intro conjI)
  show "analyzeCommitWithAI_js client c = analyzeCommitWithAI client c"
    by (simp only: analyze_cases analyze_js_cases)
  show "(\<exists>r. analyzeCommitWithAI client c = Inr r) \<longleftrightarrow>
      \<not> (\<exists>chat. client = Some chat \<and> chat (build_prompt c) = Inl ThrownNull)"
    unfolding analyze_cases by (auto split: option.splits sum.splits thrown.splits)
qed (rule analyze_cases)

text \<open>The claim as stated fails for an empty reply and for a reply of white space only: the
  content is a string, and the result is the empty string, not \<open>null\<close>. It also fails when the
  call rejects with \<open>null\<close>: the function throws. A reply with text is returned without the
  white space around it.\<close>

theorem analyze_empty_counterexample:
  "analyzeCommitWithAI (Some empty_reply) ex_commit = Inr (Some []) \<and>
   analyzeCommitWithAI_js (Some empty_reply) ex_commit = Inr (Some []) \<and>
   analyzeCommitWithAI (Some empty_reply) ex_commit \<noteq> Inr None \<and>
   analyzeCommitWithAI (Some blank_reply) ex_commit = Inr (Some []) \<and>
   analyzeCommitWithAI (Some padded_reply) ex_commit = Inr (Some ex_summary) \<and>
   analyzeCommitWithAI (Some null_reject) ex_commit = Inl type_error \<and>
   analyzeCommitWithAI_js (Some null_reject) ex_commit = Inl type_error"
  by (simp add: analyze_cases analyze_js_cases empty_reply_def blank_reply_def padded_reply_def
        null_reject_def ex_summary_def trim_def is_space_def)

subsection \<open>Persistence failures in a job\<close>

lemma analyze_Inr: "\<exists>r. analyzeCommitWithAI (map_option sdk_client service) c = Inr r"
  by (cases service)
     (auto simp: analyzeCommitWithAI_def analyze_body_def sdk_client_def
           split: sum.splits content.splits)

lemma annotate_raised:
  "raised (snd (annotate analyze client existingCommit c st)) = raised st"
  by (simp add: annotate_def did_def split: option.splits)

lemma annotate_Inr:
  "\<exists>r. fst (annotate analyzeCommitWithAI (map_option sdk_client service) existingCommit c st)
         = Inr r"
  using analyze_Inr [of service c] by (cases service) (auto simp: annotate_def split: option.splits)


lemma save_step_raised:
  assumes "prepare (db_engine w) InsertCommitSql = None" "prepare (db_engine w) InsertFileSql = None"
  shows "raised (save_step w now c aiSummary entry st) = raised st"
  using assms by (simp add: save_step_def saveCommitToDB_cases did_def split: sum.splits)

lemma worker_commit_raised:
  assumes "prepare (db_engine w) InsertCommitSql = None" "prepare (db_engine w) InsertFileSql = None"
  shows "raised (worker_commit w (map_option sdk_client service) now owner name commit st) = raised st"
proof (cases "getCommitDetailsWithDiff w owner name (ref_sha commit)")
  case None
  then show ?thesis by (simp add: worker_commit_def did_def)
next
  case (Some details)
  let ?st1 = "did (GetDetail owner name (ref_sha commit)) st"
  let ?client = "map_option sdk_client service"
  let ?ex = "getCommitFromDB (db_engine w) (wdb ?st1) (fullSha details)"
  obtain r st2 where a: "annotate analyzeCommitWithAI ?client ?ex details ?st1 = (Inr r, st2)"
    using annotate_Inr [of service ?ex details ?st1]
    by (cases "annotate analyzeCommitWithAI ?client ?ex details ?st1") auto
  have "raised st2 = raised st"
    using annotate_raised [of analyzeCommitWithAI ?client ?ex details ?st1] a
    by (simp add: did_def)
  then show ?thesis using Some a
    by (simp add: worker_commit_def Let_def save_step_raised [OF assms])
qed

lemma worker_commits_raised:
  assumes "prepare (db_engine w) InsertCommitSql = None" "prepare (db_engine w) InsertFileSql = None"
  shows "raised (worker_commits w (map_option sdk_client service) now owner name commits st) = raised st"
  by (induction commits arbitrary: st) (simp_all add: Let_def worker_commit_raised [OF assms])

lemma worker_repo_raised:
  assumes "prepare (db_engine w) InsertCommitSql = None" "prepare (db_engine w) InsertFileSql = None"
  shows "raised (worker_repo w (map_option sdk_client service) now jobId lim n i repoStr st) = raised st"
  by (simp add: worker_repo_def Let_def did_def worker_commits_raised [OF assms]
        split: list.splits)

lemma worker_repos_raised:
  assumes "prepare (db_engine w) InsertCommitSql = None" "prepare (db_engine w) InsertFileSql = None"
  shows "raised (worker_repos w (map_option sdk_client service) now jobId lim n i rs st) = raised st"
  by (induction rs arbitrary: i st) (simp_all add: Let_def worker_repo_raised [OF assms])


lemma ids_of_progress_events [simp]: "ids_of (progress_events acts) = []"
  by (induction acts rule: progress_events.induct) simp_all

lemma inflight_progress_events [simp]:
  "inflight (foldl step s (progress_events acts)) = inflight s"
  by (induction acts arbitrary: s rule: progress_events.induct)
     (simp_all add: updateProgress_def split: option.splits)







subsection \<open>Commits that are already annotated\<close>

lemma existing_summary_stored:
  assumes "prepare eng SelectSummary = None" "select_summary eng db full = Inr (Some (Some s))"
    "s \<noteq> []"
  shows "existing_summary (getCommitFromDB eng db full) = Some s"
  using assms by (simp add: existing_summary_def getCommitFromDB_def)

text \<open>
  C4 (as amended). Let the commit be stored with a summary that is not empty. In the commit loop
  of the full collection, the reference is skipped before anything is done for it: no detail
  call, no call of the summarizer, no write. The worker of \<open>fetch-commits\<close> jobs fetches the
  detail first; it then makes no call of the summarizer and saves the commit again with the
  stored summary.
\<close>

theorem annotated_commit_skipped:
  fixes w :: "'db world"
  assumes "prepare (db_engine w) SelectSummary = None" and "s \<noteq> []"
  shows "(select_summary (db_engine w) (wdb st) (ref_sha commit) = Inr (Some (Some s)) \<longrightarrow>
            main_commit w blacklistAuthors client now owner name commit st = st) \<and>
         (getCommitDetailsWithDiff w owner name (ref_sha commit) = Some details \<and>
          select_summary (db_engine w) (wdb st') (fullSha details) = Inr (Some (Some s)) \<longrightarrow>
            worker_commit w client now owner name commit st' =
              save_step w now details (Some s) (summary_of details (Some s))
                (did (GetDetail owner name (ref_sha commit)) st') \<and>
            wtrace (worker_commit w client now owner name commit st') =
              wtrace st' @ [GetDetail owner name (ref_sha commit), Save (fullSha details)])"
proof (intro conjI impI)
  assume "select_summary (db_engine w) (wdb st) (ref_sha commit) = Inr (Some (Some s))"
  from existing_summary_stored [OF assms(1) this assms(2)]
  show "main_commit w blacklistAuthors client now owner name commit st = st"
    by (simp add: main_commit_def Let_def)
next
  assume h: "getCommitDetailsWithDiff w owner name (ref_sha commit) = Some details \<and>
     select_summary (db_engine w) (wdb st') (fullSha details) = Inr (Some (Some s))"
  then have ex: "existing_summary (getCommitFromDB (db_engine w)
       (wdb (did (GetDetail owner name (ref_sha commit)) st')) (fullSha details)) = Some s"
    using existing_summary_stored [OF assms(1) _ assms(2)] by (simp add: did_def)
  then show eq: "worker_commit w client now owner name commit st' =
      save_step w now details (Some s) (summary_of details (Some s))
        (did (GetDetail owner name (ref_sha commit)) st')"
    using h by (simp add: worker_commit_def Let_def annotate_def)
  show "wtrace (worker_commit w client now owner name commit st') =
      wtrace st' @ [GetDetail owner name (ref_sha commit), Save (fullSha details)]"
    unfolding eq by (simp add: save_step_def did_def split: prod.splits sum.splits)
qed

lemma ex_annotated_eval:
  "prepare (db_engine (ex_world no_fault)) SelectSummary = None"
  "ex_summary \<noteq> []"
  "select_summary (db_engine (ex_world no_fault)) (wdb (ex_annotated :: (stmt list, CommitData) wstate))
     (ref_sha ex_ref) = Inr (Some (Some ex_summary))"
  "getCommitDetailsWithDiff (ex_world no_fault) ''acme'' ''widgets'' (ref_sha ex_ref) = Some ex_commit"
  "select_summary (db_engine (ex_world no_fault))
     (wdb (ex_annotated :: (stmt list, commit_summary) wstate))
     (fullSha ex_commit) = Inr (Some (Some ex_summary))"
  "wtrace (ex_annotated :: (stmt list, commit_summary) wstate) = []"
  by code_simp+

theorem annotated_commit_skipped_witness:
  "prepare (db_engine (ex_world no_fault)) SelectSummary = None \<and>
   select_summary (db_engine (ex_world no_fault)) (wdb (ex_annotated :: (stmt list, CommitData) wstate))
     (ref_sha ex_ref) = Inr (Some (Some ex_summary)) \<and>
   main_commit (ex_world no_fault) [] (Some empty_reply) 9 ''acme'' ''widgets'' ex_ref ex_annotated
     = ex_annotated \<and>
   getCommitDetailsWithDiff (ex_world no_fault) ''acme'' ''widgets'' (ref_sha ex_ref) = Some ex_commit \<and>
   wtrace (worker_commit (ex_world no_fault) (Some empty_reply) 9 ''acme'' ''widgets'' ex_ref
             ex_annotated)
     = [GetDetail ''acme'' ''widgets'' (ref_sha ex_ref), Save (fullSha ex_commit)]"
proof -
  note t = annotated_commit_skipped [where w = "ex_world no_fault" and s = "ex_summary"
          and client = "Some empty_reply" and now = 9 and owner = "''acme''"
          and name = "''widgets''" and commit = ex_ref, OF ex_annotated_eval(1,2)]
  have a: "main_commit (ex_world no_fault) [] (Some empty_reply) 9 ''acme'' ''widgets'' ex_ref
             ex_annotated = ex_annotated"
    using t [where st = ex_annotated and blacklistAuthors = "[]"] ex_annotated_eval(3) by blast
  have b: "wtrace (worker_commit (ex_world no_fault) (Some empty_reply) 9 ''acme'' ''widgets'' ex_ref
             ex_annotated)
     = wtrace (ex_annotated :: (stmt list, commit_summary) wstate) @
       [GetDetail ''acme'' ''widgets'' (ref_sha ex_ref), Save (fullSha ex_commit)]"
    using t [where st' = ex_annotated and details = ex_commit] ex_annotated_eval(4,5) by blast
  show ?thesis using a b ex_annotated_eval by simp
qed

text \<open>The claim as stated fails twice: the worker makes a detail call and a write for a commit
  stored with a summary, and the full collection fetches and summarizes again a commit whose
  stored summary is the empty string, which is not \<open>null\<close>.\<close>

theorem annotated_commit_counterexample:
  "select_summary (db_engine (ex_world no_fault))
     (wdb (ex_annotated :: (stmt list, commit_summary) wstate)) ''abc1234def''
     = Inr (Some (Some ex_summary)) \<and>
   wtrace (worker_commit (ex_world no_fault) (Some empty_reply) 9 ''acme'' ''widgets'' ex_ref
             ex_annotated)
     = [GetDetail ''acme'' ''widgets'' ''abc1234def'', Save ''abc1234def''] \<and>
   select_summary (db_engine (ex_world no_fault))
     (wdb (ex_blank :: (stmt list, CommitData) wstate)) ''abc1234def'' = Inr (Some (Some [])) \<and>
   wtrace (main_commit (ex_world no_fault) [] (Some empty_reply) 9 ''acme'' ''widgets'' ex_ref
             ex_blank)
     = [GetDetail ''acme'' ''widgets'' ''abc1234def'', Summarize ''abc1234def'',
        Save ''abc1234def'']"
  by code_simp

subsection \<open>Progress reports\<close>

lemma repo_level_annotate:
  "filter repo_level (wtrace (snd (annotate analyze client existingCommit c st)))
     = filter repo_level (wtrace st)"
  by (simp add: annotate_def did_def split: option.splits)

lemma repo_level_save_step:
  "filter repo_level (wtrace (save_step w now c aiSummary entry st)) = filter repo_level (wtrace st)"
  by (simp add: save_step_def did_def split: prod.splits sum.splits)

lemma repo_level_worker_commit:
  "filter repo_level (wtrace (worker_commit w client now owner name commit st))
     = filter repo_level (wtrace st)"
proof (cases "getCommitDetailsWithDiff w owner name (ref_sha commit)")
  case None
  then show ?thesis by (simp add: worker_commit_def did_def)
next
  case (Some details)
  let ?st1 = "did (GetDetail owner name (ref_sha commit)) st"
  let ?ex = "getCommitFromDB (db_engine w) (wdb ?st1) (fullSha details)"
  obtain r st2 where a: "annotate analyzeCommitWithAI client ?ex details ?st1 = (r, st2)"
    by (cases "annotate analyzeCommitWithAI client ?ex details ?st1") auto
  have "filter repo_level (wtrace st2) = filter repo_level (wtrace st)"
    using repo_level_annotate [of analyzeCommitWithAI client ?ex details ?st1] a
    by (simp add: did_def)
  then show ?thesis using Some a
    by (cases r) (simp_all add: worker_commit_def Let_def repo_level_save_step)
qed

lemma repo_level_worker_commits:
  "filter repo_level (wtrace (worker_commits w client now owner name commits st))
     = filter repo_level (wtrace st)"
  by (induction commits arbitrary: st) (simp_all add: Let_def repo_level_worker_commit)

lemma worker_repo_trace:
  "filter repo_level (wtrace (worker_repo w client now jobId lim n i repoStr st))
     = filter repo_level (wtrace st) @ repo_header w jobId n i repoStr"
  by (simp add: worker_repo_def repo_header_def Let_def did_def repo_level_worker_commits
        split: list.splits)

lemma worker_repos_trace:
  assumes "prepare (db_engine w) InsertCommitSql = None" "prepare (db_engine w) InsertFileSql = None"
  shows "raised st = None \<Longrightarrow>
     filter repo_level (wtrace (worker_repos w (map_option sdk_client service) now jobId lim n i rs st))
       = filter repo_level (wtrace st) @
         concat (map (\<lambda>(k, repoStr). repo_header w jobId n k repoStr) (enumerate i rs))"
proof (induction rs arbitrary: i st)
  case Nil
  show ?case by simp
next
  case (Cons r rs)
  let ?st' = "worker_repo w (map_option sdk_client service) now jobId lim n i r st"
  have r: "raised ?st' = None" using Cons.prems by (simp add: worker_repo_raised [OF assms])
  show ?case using Cons.IH [OF r, of "Suc i"] r by (simp add: Let_def worker_repo_trace)
qed

text \<open>
  C8 (as amended). With a configured token and statements that prepare, the progress reports
  and listing calls of a \<open>fetch-commits\<close> job over \<open>n\<close> repositories are, in order and for each
  entry of the form owner/name at index \<open>k\<close>, the report of \<open>round_percent (k + 1) n\<close>
  followed by the listing of that repository; other entries give neither. For such an entry
  the report is the first call the worker makes for the repository: the listing and every
  call for the repository's commits come after it.
\<close>

theorem progress_reported_first:
  fixes w :: "'db world"
  assumes "truthy (github_token w)"
    and "prepare (db_engine w) InsertCommitSql = None"
    and "prepare (db_engine w) InsertFileSql = None"
  shows "filter repo_level (snd (snd (fetch_commits_worker w now jobId p db)))
           = concat (map (\<lambda>(k, repoStr). repo_header w jobId (length (repos p)) k repoStr)
                       (enumerate 0 (repos p))) \<and>
         (split_slash repoStr = owner # name # others \<and> owner \<noteq> [] \<and> name \<noteq> [] \<longrightarrow>
            (\<exists>acts. wtrace (worker_repo w client now jobId lim n i repoStr st)
                      = wtrace st @ ReportProgress jobId (round_percent w (i + 1) n) #
                          ListCommits owner name # acts \<and>
                    filter repo_level acts = []))"
proof (intro conjI impI)
  show "filter repo_level (snd (snd (fetch_commits_worker w now jobId p db)))
           = concat (map (\<lambda>(k, repoStr). repo_header w jobId (length (repos p)) k repoStr)
                       (enumerate 0 (repos p)))"
  proof -
    let ?service = "if useAI p \<and> truthy (mistral_api_key w) then Some (mistral_client w) else None"
    have c: "(if useAI p \<and> truthy (mistral_api_key w) then Some (sdk_client (mistral_client w))
              else None) = map_option sdk_client ?service"
      by simp
    show ?thesis
      using assms(1)
      unfolding fetch_commits_worker_def c
      by (simp add: Let_def worker_repos_raised [OF assms(2,3)]
            worker_repos_trace [OF assms(2,3)])
  qed
next
  assume h: "split_slash repoStr = owner # name # others \<and> owner \<noteq> [] \<and> name \<noteq> []"
  let ?st2 = "did (ListCommits owner name)
                (did (ReportProgress jobId (round_percent w (i + 1) n)) st)"
  let ?commits = "slice0 lim (getCommits w owner name)"
  have mono: "\<exists>acts. wtrace (worker_commits w client now owner name cs t) = wtrace t @ acts"
    for cs and t :: "('db, commit_summary) wstate"
  proof (induction cs arbitrary: t)
    case Nil
    show ?case by simp
  next
    case (Cons c cs)
    have one: "\<exists>acts. wtrace (worker_commit w client now owner name c t) = wtrace t @ acts"
      by (auto simp: worker_commit_def Let_def did_def annotate_def save_step_def
            split: option.splits prod.splits sum.splits)
    then obtain a1 where a1: "wtrace (worker_commit w client now owner name c t) = wtrace t @ a1"
      by blast
    from Cons.IH [of "worker_commit w client now owner name c t"] a1
    show ?case by (auto simp: Let_def)
  qed
  obtain acts where acts: "wtrace (worker_commits w client now owner name ?commits ?st2)
      = wtrace ?st2 @ acts"
    using mono by blast
  have "filter repo_level (wtrace (worker_commits w client now owner name ?commits ?st2))
          = filter repo_level (wtrace ?st2)"
    by (rule repo_level_worker_commits)
  with acts have none: "filter repo_level acts = []" by simp
  show "\<exists>acts. wtrace (worker_repo w client now jobId lim n i repoStr st)
                      = wtrace st @ ReportProgress jobId (round_percent w (i + 1) n) #
                          ListCommits owner name # acts \<and>
                    filter repo_level acts = []"
  proof (cases "length (getCommits w owner name) > 0")
    case True
    then show ?thesis using h acts none
      by (intro exI [of _ acts]) (simp add: worker_repo_def Let_def did_def)
  next
    case False
    then show ?thesis using h
      by (intro exI [of _ "[]"]) (simp add: worker_repo_def Let_def did_def)
  qed
qed

lemma ex_progress_eval:
  "truthy (github_token (ex_world no_fault))"
  "prepare (db_engine (ex_world no_fault)) InsertCommitSql = None"
  "prepare (db_engine (ex_world no_fault)) InsertFileSql = None"
  "repos ex_payload = [''acme/widgets'']"
  "repo_header (ex_world no_fault) ''job'' (Suc 0) 0 ''acme/widgets''
     = [ReportProgress ''job'' 100, ListCommits ''acme'' ''widgets'']"
  "split_slash ''acme/widgets'' = ''acme'' # ''widgets'' # []"
  by code_simp+

theorem progress_reported_first_witness:
  "truthy (github_token (ex_world no_fault)) \<and>
   prepare (db_engine (ex_world no_fault)) InsertCommitSql = None \<and>
   prepare (db_engine (ex_world no_fault)) InsertFileSql = None \<and>
   filter repo_level (snd (snd (fetch_commits_worker (ex_world no_fault) 9 ''job'' ex_payload [])))
     = [ReportProgress ''job'' 100, ListCommits ''acme'' ''widgets''] \<and>
   split_slash ''acme/widgets'' = ''acme'' # ''widgets'' # [] \<and>
   (\<exists>acts. wtrace (worker_repo (ex_world no_fault) None 9 ''job'' 5 1 0 ''acme/widgets'' ex_wstate)
             = wtrace ex_wstate @ ReportProgress ''job'' (round_percent (ex_world no_fault) (0 + 1) 1) #
                 ListCommits ''acme'' ''widgets'' # acts \<and>
           filter repo_level acts = [])"
proof -
  note t = progress_reported_first [where w = "ex_world no_fault", OF ex_progress_eval(1,2,3)]
  have a: "filter repo_level (snd (snd (fetch_commits_worker (ex_world no_fault) 9 ''job'' ex_payload [])))
     = [ReportProgress ''job'' 100, ListCommits ''acme'' ''widgets'']"
    using t [where now = 9 and jobId = "''job''" and p = ex_payload and db = "[]",
             THEN conjunct1]
    by (simp add: ex_progress_eval enumerate_eq_zip)
  have b: "\<exists>acts. wtrace (worker_repo (ex_world no_fault) None 9 ''job'' 5 1 0 ''acme/widgets'' ex_wstate)
             = wtrace ex_wstate @ ReportProgress ''job'' (round_percent (ex_world no_fault) (0 + 1) 1) #
                 ListCommits ''acme'' ''widgets'' # acts \<and>
           filter repo_level acts = []"
    using t [where repoStr = "''acme/widgets''" and owner = "''acme''" and name = "''widgets''"
               and others = "[]" and client = None and now = 9 and jobId = "''job''"
               and lim = 5 and n = 1 and i = 0 and st = ex_wstate, THEN conjunct2]
          ex_progress_eval(6)
    by simp
  show ?thesis using a b ex_progress_eval by simp
qed

text \<open>The claim as stated fails for a job over one repository: 100 is reported before the
  repository is listed and its commit fetched and saved, and the queue shows progress 100 on
  a job that is still \<open>processing\<close>.\<close>

theorem progress_reported_first_counterexample:
  "snd (snd (fetch_commits_worker (ex_world no_fault) 9 ''job'' ex_payload []))
     = [ReportProgress ''job'' 100, ListCommits ''acme'' ''widgets'',
        GetDetail ''acme'' ''widgets'' ''abc1234def'', Save ''abc1234def''] \<and>
   progress (heap (run (ex_started @ [UpdateProgress (make_id FetchCommits 5 ''a'') 100])) ! 0)
     = Some 100 \<and>
   status (heap (run (ex_started @ [UpdateProgress (make_id FetchCommits 5 ''a'') 100])) ! 0)
     = Processing"
  by code_simp

end
